theory Spec2Isabelle
  imports Complex_Main "HOL-Library.Word"
begin

unbundle bit_operations_syntax

section \<open>Data model of the reference RPMD kernel\<close>

text \<open>
  The embedding follows \<^verbatim>\<open>ReferenceRpmdKernels.cpp\<close>.  A C++ \<^verbatim>\<open>double\<close> is read as a
  real number and \<^verbatim>\<open>complex<double>\<close> as a complex number (rounding is not modelled, nor
  are infinities and NaN: the statements about computed values exclude the inputs on
  which the code divides by zero or takes the square root of a negative number);
  the 32-bit \<^verbatim>\<open>int\<close> bit masks are \<open>32 word\<close>; force-group indices and copy counts
  are integers.  A \<^verbatim>\<open>Vec3\<close> is a triple, a \<^verbatim>\<open>vector<Vec3>\<close> a list.
\<close>

type_synonym vec3 = "real \<times> real \<times> real"

text \<open>
  The exceptions the kernel lets escape: an \<^verbatim>\<open>OpenMMException\<close> with its message, and the
  \<^verbatim>\<open>std::length_error\<close> of a \<^verbatim>\<open>vector::resize\<close> beyond \<^verbatim>\<open>max_size()\<close>.
\<close>

datatype error = OpenMMException string | LengthError

text \<open>\<^verbatim>\<open>System\<close>: only the particle masses are read by the kernel.\<close>

record System =
  masses :: "real list"

definition getNumParticles :: "System \<Rightarrow> nat" where
  "getNumParticles sys = length (masses sys)"

definition getParticleMass :: "System \<Rightarrow> nat \<Rightarrow> real" where
  "getParticleMass sys i = masses sys ! i"

text \<open>
  \<^verbatim>\<open>RPMDIntegrator\<close>: the configuration read through its getters.  \<open>contractions\<close> is
  the \<^verbatim>\<open>map<int,int>\<close> from force group to copy count, listed in iteration order.
\<close>

record RPMDIntegrator =
  getNumCopies :: int
  getContractions :: "(int \<times> int) list"
  getIntegrationForceGroups :: "32 word"
  getStepSize :: real
  getTemperature :: real
  getFriction :: real
  getApplyThermostat :: bool
  getUseOpenPath :: bool

text \<open>
  The members of \<^verbatim>\<open>ReferenceIntegrateRPMDStepKernel\<close>.  \<open>groupsByCopies\<close> is the
  \<^verbatim>\<open>map<int,int>\<close> from copy count to group mask, kept as a list sorted by key.
\<close>

record kernel =
  positions :: "vec3 list list"
  velocities :: "vec3 list list"
  forces :: "vec3 list list"
  contractedPositions :: "vec3 list list"
  contractedForces :: "vec3 list list"
  groupsNotContracted :: "32 word"
  groupsByCopies :: "(int \<times> 32 word) list"

subsection \<open>Containers\<close>

text \<open>\<^verbatim>\<open>vector::resize(n)\<close>: keeps the first \<open>n\<close> elements, pads with the default.\<close>

definition resize :: "nat \<Rightarrow> 'a \<Rightarrow> 'a list \<Rightarrow> 'a list" where
  "resize n d xs = take n xs @ replicate (n - length xs) d"

definition zero3 :: vec3 where
  "zero3 = (0, 0, 0)"

text \<open>\<^verbatim>\<open>m[k] = v\<close> on a \<^verbatim>\<open>std::map\<close>: replace the entry with key \<open>k\<close> or insert it in key order.\<close>

fun map_put :: "(int \<times> 'v) list \<Rightarrow> int \<Rightarrow> 'v \<Rightarrow> (int \<times> 'v) list" where
  "map_put [] k v = [(k, v)]"
| "map_put ((k', v') # m) k v =
     (if k < k' then (k, v) # (k', v') # m
      else if k = k' then (k, v) # m
      else (k', v') # map_put m k v)"

text \<open>\<^verbatim>\<open>m.find(k)\<close>: the value stored under \<open>k\<close>, if any.\<close>

definition map_find :: "(int \<times> 'v) list \<Rightarrow> int \<Rightarrow> 'v option" where
  "map_find m k = map_of m k"

section \<open>initialize\<close>

definition groupError :: error where
  "groupError = OpenMMException ''RPMDIntegrator: Force group must be between 0 and 31''"

definition copiesError :: error where
  "copiesError = OpenMMException
     ''RPMDIntegrator: Number of copies for contraction cannot be greater than the total number of copies being simulated''"

text \<open>\<^verbatim>\<open>1<<group\<close> as a 32-bit mask.\<close>

definition groupBit :: "int \<Rightarrow> 32 word" where
  "groupBit grp = push_bit (nat grp) 1"

text \<open>
  The loop over \<open>contractions\<close> (lines 79-96).  Its state is
  \<open>(groupsNotContracted, groupsByCopies, maxContractedCopies)\<close>;
  \<open>contractionStep\<close> is the loop body for one entry, a \<^verbatim>\<open>throw\<close> ends the loop.
\<close>

type_synonym contraction_state = "32 word \<times> (int \<times> 32 word) list \<times> int"

fun contractionStep ::
  "int \<Rightarrow> int \<times> int \<Rightarrow> contraction_state \<Rightarrow> error + contraction_state" where
  "contractionStep P (grp, copies) (gnc, gbc, maxc) =
     (if grp < 0 \<or> grp > 31 then Inl groupError
      else if copies < 0 \<or> copies > P then Inl copiesError
      else if copies \<noteq> P then
        (case map_find gbc copies of
           None \<Rightarrow>
             Inr (gnc - groupBit grp, map_put gbc copies (groupBit grp),
                  if copies > maxc then copies else maxc)
         | Some m \<Rightarrow>
             Inr (gnc - groupBit grp, map_put gbc copies (m OR groupBit grp), maxc))
      else Inr (gnc, gbc, maxc))"

fun buildContractions ::
  "int \<Rightarrow> (int \<times> int) list \<Rightarrow> contraction_state \<Rightarrow> error + contraction_state" where
  "buildContractions P [] st = Inr st"
| "buildContractions P (c # cs) st =
     (case contractionStep P c st of
        Inl e \<Rightarrow> Inl e
      | Inr st' \<Rightarrow> buildContractions P cs st')"

text \<open>
  \<open>initialize\<close> (lines 61-107).  \<^verbatim>\<open>positions.resize(numCopies)\<close> comes first (line 64): a
  negative \<^verbatim>\<open>int\<close> converts to a size above \<^verbatim>\<open>max_size()\<close> and the call throws before the
  loop over the contractions is reached.  Seeding the global random number generator
  leaves the kernel's members alone and is not part of the result.
\<close>

definition initialize :: "kernel \<Rightarrow> System \<Rightarrow> RPMDIntegrator \<Rightarrow> error + kernel" where
  "initialize k sys integ =
     (let P = getNumCopies integ;
          N = getNumParticles sys;
          sized = (\<lambda>n a. map (resize N zero3) (resize n [] a))
      in if P < 0 then Inl LengthError
         else
           (case buildContractions P (getContractions integ) (- 1, groupsByCopies k, 0) of
              Inl e \<Rightarrow> Inl e
            | Inr (gnc, gbc, maxc) \<Rightarrow>
                Inr (k\<lparr>positions := sized (nat P) (positions k),
                       velocities := sized (nat P) (velocities k),
                       forces := sized (nat P) (forces k),
                       groupsNotContracted := gnc AND getIntegrationForceGroups integ,
                       groupsByCopies := gbc,
                       contractedPositions := sized (nat maxc) (contractedPositions k),
                       contractedForces := sized (nat maxc) (contractedForces k)\<rparr>)))"

text \<open>A kernel as constructed, before \<open>initialize\<close>: every container is empty.\<close>

definition newKernel :: kernel where
  "newKernel = \<lparr>positions = [], velocities = [], forces = [],
     contractedPositions = [], contractedForces = [],
     groupsNotContracted = 0, groupsByCopies = []\<rparr>"

text \<open>An entry of \<open>contractions\<close> that passes both range checks of the loop.\<close>

definition validEntry :: "int \<Rightarrow> int \<times> int \<Rightarrow> bool" where
  "validEntry P e = (0 \<le> fst e \<and> fst e \<le> 31 \<and> 0 \<le> snd e \<and> snd e \<le> P)"

text \<open>The bitwise union of a list of masks, and the mask stored for a copy count.\<close>

definition unionMasks :: "32 word list \<Rightarrow> 32 word" where
  "unionMasks ms = foldr (OR) ms 0"

definition maskFor :: "(int \<times> 32 word) list \<Rightarrow> int \<Rightarrow> 32 word" where
  "maskFor m c = (case map_find m c of None \<Rightarrow> 0 | Some v \<Rightarrow> v)"

section \<open>The integration step\<close>

subsection \<open>External collaborators\<close>

text \<open>
  The \<^verbatim>\<open>ContextImpl\<close> as far as the kernel touches it: the platform's position, velocity
  and force arrays, the periodic box, time and step count; \<open>engineState\<close> stands for
  everything else the physics engine keeps.
\<close>

record 'e Context =
  ctxPositions :: "vec3 list"
  ctxVelocities :: "vec3 list"
  ctxForces :: "vec3 list"
  periodicBox :: "vec3 \<times> vec3 \<times> vec3"
  ctxTime :: real
  ctxStepCount :: int
  engineState :: 'e

text \<open>
  What the kernel calls but does not define: the physical constants of the unit
  headers, the cosine transform \<^verbatim>\<open>pocketfft::dct\<close> (transform type, data, scale factor,
  \<^verbatim>\<open>ortho\<close> flag) and the context's operations.  They are parameters of the model; the
  context's operations are taken to return.
\<close>

record 'e External =
  BOLTZ :: real
  AVOGADRO :: real
  dct :: "nat \<Rightarrow> real list \<Rightarrow> real \<Rightarrow> bool \<Rightarrow> real list"
  computeVirtualSites :: "'e Context \<Rightarrow> 'e Context"
  updateContextState :: "'e Context \<Rightarrow> 'e Context"
  calcForcesAndEnergy :: "bool \<Rightarrow> bool \<Rightarrow> 32 word \<Rightarrow> 'e Context \<Rightarrow> 'e Context"

text \<open>
  The process-wide random number generator is the stream of standard normal draws it
  will still return; \<^verbatim>\<open>getNormallyDistributedRandomNumber\<close> takes the first.
\<close>

type_synonym rng = "nat \<Rightarrow> real"

definition getNormallyDistributedRandomNumber :: "rng \<Rightarrow> real \<times> rng" where
  "getNormallyDistributedRandomNumber r = (r 0, \<lambda>n. r (Suc n))"

text \<open>
  Everything a step can change: the kernel's members, the context and the generator.
  A step returns normally (\<open>Done\<close>) or throws (\<open>Thrown\<close>, with the state the exception
  leaves behind).
\<close>

record 'e world =
  kern :: kernel
  ctx :: "'e Context"
  rand :: rng

datatype 's result = Done 's | Thrown error 's

definition barostatError :: error where
  "barostatError = OpenMMException
     ''Standard barostats cannot be used with RPMDIntegrator.  Use RPMDMonteCarloBarostat instead.''"

definition lepigsError :: error where
  "lepigsError = OpenMMException ''Contractions are not implemented for LePIGS!''"

subsection \<open>Vectors and columns\<close>

fun component :: "vec3 \<Rightarrow> nat \<Rightarrow> real" where
  "component (x, y, z) c = (if c = 0 then x else if c = 1 then y else z)"

fun setComponent :: "vec3 \<Rightarrow> nat \<Rightarrow> real \<Rightarrow> vec3" where
  "setComponent (x, y, z) c a =
     (if c = 0 then (a, y, z) else if c = 1 then (x, a, z) else (x, y, a))"

fun scaleVec :: "vec3 \<Rightarrow> real \<Rightarrow> vec3" where
  "scaleVec (x, y, z) a = (x * a, y * a, z * a)"

fun addVec :: "vec3 \<Rightarrow> vec3 \<Rightarrow> vec3" where
  "addVec (x, y, z) (x', y', z') = (x + x', y + y', z + z')"

text \<open>
  \<open>readColumn a p c n\<close> lists \<^verbatim>\<open>a[k][p][c]\<close> for \<open>k < n\<close>; \<open>writeColumn a p c n f\<close> is the
  loop \<^verbatim>\<open>for (k = 0; k < n; k++) a[k][p][c] = f(k)\<close>.
\<close>

definition readColumn :: "vec3 list list \<Rightarrow> nat \<Rightarrow> nat \<Rightarrow> nat \<Rightarrow> real list" where
  "readColumn a p c n = map (\<lambda>k. component (a ! k ! p) c) [0..<n]"

definition writeColumn ::
  "vec3 list list \<Rightarrow> nat \<Rightarrow> nat \<Rightarrow> nat \<Rightarrow> (nat \<Rightarrow> real) \<Rightarrow> vec3 list list" where
  "writeColumn a p c n f =
     fold (\<lambda>k a. a[k := (a ! k)[p := setComponent (a ! k ! p) c (f k)]]) [0..<n] a"

text \<open>\<^verbatim>\<open>positions.size()\<close> and \<^verbatim>\<open>positions[0].size()\<close>.\<close>

definition copiesOf :: "kernel \<Rightarrow> nat" where
  "copiesOf k = length (positions k)"

definition particlesOf :: "kernel \<Rightarrow> nat" where
  "particlesOf k = (case positions k of [] \<Rightarrow> 0 | b # _ \<Rightarrow> length b)"

subsection \<open>The complex transform\<close>

text \<open>
  Modelled from the spec: the complex FFT primitive \<^verbatim>\<open>pocketfft::c2c\<close>
  (\<^verbatim>\<open>pocketfft_hdronly.h\<close> is not among the sources).  It is the discrete Fourier
  transform of the first \<open>n\<close> elements of the buffer, in place, forward with the
  negative exponent and backward with the positive one, multiplied by the scale factor
  \<open>fct\<close> (the kernel always passes 1).
\<close>

definition unityRoot :: "nat \<Rightarrow> bool \<Rightarrow> complex" where
  "unityRoot n forward = cis ((if forward then - 1 else 1) * (2 * pi / real n))"

definition c2c :: "nat \<Rightarrow> bool \<Rightarrow> complex list \<Rightarrow> real \<Rightarrow> complex list" where
  "c2c n forward xs fct =
     map (\<lambda>k. of_real fct * (\<Sum>j<n. xs ! j * unityRoot n forward ^ (j * k))) [0..<n]
       @ drop n xs"

subsection \<open>Closed path: thermostat, kick and free ring polymer\<close>

text \<open>\<^verbatim>\<open>hbar\<close> (lines 128 and 282).\<close>

definition hbar :: "'e External \<Rightarrow> real" where
  "hbar ext = 1054571628 / 10 ^ 43 * AVOGADRO ext / (1000 * (1 / 10 ^ 12))"

text \<open>
  One pass of the loop over the internal modes of the PILE-L thermostat (lines 152-163):
  the mode buffer and the generator before and after mode \<open>k\<close>.
\<close>

definition pileModeStep ::
  "nat \<Rightarrow> real \<Rightarrow> real \<Rightarrow> real \<Rightarrow> real \<Rightarrow> nat \<Rightarrow> complex list \<times> rng \<Rightarrow> complex list \<times> rng"
  where
  "pileModeStep numCopies twown halfdt nkT mass k vr =
     (let (v, r) = vr;
          isCenter = (numCopies mod 2 = 0 \<and> k = numCopies div 2);
          wk = twown * sin (real k * pi / real numCopies);
          c1 = exp (- 2 * wk * halfdt);
          c2 = sqrt ((1 - c1 * c1) / 2) * (if isCenter then sqrt 2 else 1);
          c3 = c2 * sqrt (nkT / mass);
          (x1, r1) = getNormallyDistributedRandomNumber r;
          rand1 = c3 * x1;
          (rand2, r2) =
            (if isCenter then (0, r1)
             else (let (x2, r') = getNormallyDistributedRandomNumber r1 in (c3 * x2, r')));
          v1 = v[k := v ! k * of_real c1 + Complex rand1 rand2];
          v2 = (if k < numCopies - k
                then v1[numCopies - k := v1 ! (numCopies - k) * of_real c1 + Complex rand1 (- rand2)]
                else v1)
      in (v2, r2))"

text \<open>The centroid update and the mode loop, between the two transforms (lines 148-163).\<close>

definition pileModes ::
  "nat \<Rightarrow> real \<Rightarrow> real \<Rightarrow> real \<Rightarrow> real \<Rightarrow> real \<Rightarrow> real \<Rightarrow> complex list \<times> rng \<Rightarrow> complex list \<times> rng"
  where
  "pileModes numCopies twown halfdt nkT c1_0 c3_0 mass vr =
     (let (v, r) = vr;
          (x, r0) = getNormallyDistributedRandomNumber r;
          v0 = v[0 := Complex (Re (v ! 0) * c1_0 + c3_0 * x) (Im (v ! 0))]
      in fold (pileModeStep numCopies twown halfdt nkT mass) [1..<numCopies div 2 + 1] (v0, r0))"

text \<open>The thermostat on one Cartesian component of one particle (lines 141-166).\<close>

definition pileColumn ::
  "nat \<Rightarrow> real \<Rightarrow> real \<Rightarrow> real \<Rightarrow> real \<Rightarrow> real \<Rightarrow> real \<Rightarrow> real \<Rightarrow> real list \<times> rng \<Rightarrow> complex list \<times> rng"
  where
  "pileColumn numCopies scale twown halfdt nkT c1_0 c3_0 mass colr =
     (let (col, r) = colr;
          v = c2c numCopies True (map (\<lambda>x. Complex (scale * x) 0) col) 1;
          (v', r') = pileModes numCopies twown halfdt nkT c1_0 c3_0 mass (v, r)
      in (c2c numCopies False v' 1, r'))"

text \<open>
  The body of the loop over the components (lines 141-166): read the velocities of all
  copies, thermostat them in the mode basis, write them back.
\<close>

definition thermostatComponent ::
  "nat \<Rightarrow> real \<Rightarrow> real \<Rightarrow> real \<Rightarrow> real \<Rightarrow> real \<Rightarrow> real \<Rightarrow> real \<Rightarrow> nat \<Rightarrow> nat \<Rightarrow>
     vec3 list list \<times> rng \<Rightarrow> vec3 list list \<times> rng" where
  "thermostatComponent numCopies scale twown halfdt nkT c1_0 c3_0 mass particle axis velr =
     (let (vel, r) = velr;
          (v, r') = pileColumn numCopies scale twown halfdt nkT c1_0 c3_0 mass
                      (readColumn vel particle axis numCopies, r)
      in (writeColumn vel particle axis numCopies (\<lambda>k. scale * Re (v ! k)), r'))"

text \<open>The thermostat block (lines 135-169 and 222-255), on the velocities and the generator.\<close>

definition thermostatClosed ::
  "'e External \<Rightarrow> System \<Rightarrow> RPMDIntegrator \<Rightarrow> nat \<Rightarrow> nat \<Rightarrow> vec3 list list \<times> rng \<Rightarrow>
     vec3 list list \<times> rng" where
  "thermostatClosed ext sys integ numCopies numParticles velr =
     (let halfdt = 0.5 * getStepSize integ;
          scale = 1 / sqrt (real numCopies);
          nkT = real numCopies * BOLTZ ext * getTemperature integ;
          twown = 2 * nkT / hbar ext;
          c1_0 = exp (- halfdt * getFriction integ);
          c2_0 = sqrt (1 - c1_0 * c1_0)
      in if getApplyThermostat integ then
           fold (\<lambda>particle velr.
                  if getParticleMass sys particle = 0 then velr
                  else
                    (let c3_0 = c2_0 * sqrt (nkT / getParticleMass sys particle)
                     in fold (thermostatComponent numCopies scale twown halfdt nkT c1_0 c3_0
                                (getParticleMass sys particle) particle)
                          [0..<3] velr))
             [0..<numParticles] velr
         else velr)"

text \<open>
  The velocity update (lines 173-176 and 215-218, 327-331 and 372-376); \<open>kickParticle\<close>
  is the statement under the two loops.
\<close>

definition kickParticle ::
  "System \<Rightarrow> real \<Rightarrow> vec3 list list \<Rightarrow> nat \<Rightarrow> nat \<Rightarrow> vec3 list list \<Rightarrow> vec3 list list" where
  "kickParticle sys halfdt frc i j vel =
     (if getParticleMass sys j \<noteq> 0
      then vel[i := (vel ! i)[j := addVec (vel ! i ! j)
                       (scaleVec (frc ! i ! j) (halfdt / getParticleMass sys j))]]
      else vel)"

definition kick ::
  "System \<Rightarrow> real \<Rightarrow> nat \<Rightarrow> nat \<Rightarrow> vec3 list list \<Rightarrow> vec3 list list \<Rightarrow> vec3 list list" where
  "kick sys halfdt numCopies numParticles frc vel =
     fold (\<lambda>i vel. fold (kickParticle sys halfdt frc i) [0..<numParticles] vel)
       [0..<numCopies] vel"

text \<open>
  One pass of the loop over the modes of the free ring polymer (lines 191-199).  The
  quotient \<^verbatim>\<open>sinwt/wk\<close> is a division by \<open>wk\<close>, which is zero only when \<open>twown\<close> is (at zero
  temperature); there the code computes \<^verbatim>\<open>0.0/0.0\<close>.
\<close>

definition driftModeStep ::
  "nat \<Rightarrow> real \<Rightarrow> real \<Rightarrow> nat \<Rightarrow> complex list \<times> complex list \<Rightarrow> complex list \<times> complex list"
  where
  "driftModeStep numCopies twown dt k qv =
     (let (q, v) = qv;
          wk = twown * sin (real k * pi / real numCopies);
          wt = wk * dt;
          coswt = cos wt;
          sinwt = sin wt;
          vprime = v ! k * of_real coswt - q ! k * of_real (wk * sinwt);
          q' = q[k := v ! k * of_real (sinwt / wk) + q ! k * of_real coswt]
      in (q', v[k := vprime]))"

text \<open>The centroid and the mode loop, between the transforms (lines 190-199).\<close>

definition driftModes ::
  "nat \<Rightarrow> real \<Rightarrow> real \<Rightarrow> complex list \<times> complex list \<Rightarrow> complex list \<times> complex list" where
  "driftModes numCopies twown dt qv =
     (let (q, v) = qv;
          q0 = q[0 := q ! 0 + v ! 0 * of_real dt]
      in fold (driftModeStep numCopies twown dt) [1..<numCopies] (q0, v))"

text \<open>The free ring polymer on one component of one particle (lines 184-201).\<close>

definition driftColumn ::
  "nat \<Rightarrow> real \<Rightarrow> real \<Rightarrow> real \<Rightarrow> real list \<times> real list \<Rightarrow> complex list \<times> complex list" where
  "driftColumn numCopies scale twown dt qv =
     (let (qcol, vcol) = qv;
          q = c2c numCopies True (map (\<lambda>x. Complex (scale * x) 0) qcol) 1;
          v = c2c numCopies True (map (\<lambda>x. Complex (scale * x) 0) vcol) 1;
          (q', v') = driftModes numCopies twown dt (q, v)
      in (c2c numCopies False q' 1, c2c numCopies False v' 1))"

text \<open>The body of the loop over the components (lines 184-206).\<close>

definition driftComponent ::
  "nat \<Rightarrow> real \<Rightarrow> real \<Rightarrow> real \<Rightarrow> nat \<Rightarrow> nat \<Rightarrow>
     vec3 list list \<times> vec3 list list \<Rightarrow> vec3 list list \<times> vec3 list list" where
  "driftComponent numCopies scale twown dt particle axis pv =
     (let (pos, vel) = pv;
          (q, v) = driftColumn numCopies scale twown dt
                     (readColumn pos particle axis numCopies,
                      readColumn vel particle axis numCopies)
      in (writeColumn pos particle axis numCopies (\<lambda>k. scale * Re (q ! k)),
          writeColumn vel particle axis numCopies (\<lambda>k. scale * Re (v ! k))))"

text \<open>The free ring polymer block (lines 180-207), on positions and velocities.\<close>

definition driftClosed ::
  "'e External \<Rightarrow> System \<Rightarrow> RPMDIntegrator \<Rightarrow> nat \<Rightarrow> nat \<Rightarrow>
     vec3 list list \<times> vec3 list list \<Rightarrow> vec3 list list \<times> vec3 list list" where
  "driftClosed ext sys integ numCopies numParticles pv =
     (let dt = getStepSize integ;
          scale = 1 / sqrt (real numCopies);
          nkT = real numCopies * BOLTZ ext * getTemperature integ;
          twown = 2 * nkT / hbar ext
      in fold (\<lambda>particle pv.
                if getParticleMass sys particle = 0 then pv
                else fold (driftComponent numCopies scale twown dt particle) [0..<3] pv)
           [0..<numParticles] pv)"

subsection \<open>Open path: thermostat and free chain\<close>

text \<open>The thermostat on one component of one particle, open path (lines 298-317).\<close>

definition pileModeStepOpen ::
  "nat \<Rightarrow> real \<Rightarrow> real \<Rightarrow> real \<Rightarrow> real \<Rightarrow> nat \<Rightarrow> real list \<times> rng \<Rightarrow> real list \<times> rng" where
  "pileModeStepOpen numCopies twown halfdt nkT mass k vr =
     (let (v, r) = vr;
          wk = twown * sin (real k * pi / real numCopies / 2);
          c1 = exp (- 2 * wk * halfdt);
          c2 = sqrt (1 - c1 * c1);
          c3 = c2 * sqrt (nkT / mass);
          (x1, r1) = getNormallyDistributedRandomNumber r;
          rand1 = c3 * x1
      in (v[k := v ! k * c1 + rand1], r1))"

definition pileColumnOpen ::
  "'e External \<Rightarrow> nat \<Rightarrow> real \<Rightarrow> real \<Rightarrow> real \<Rightarrow> real \<Rightarrow> real \<Rightarrow> real \<Rightarrow> real \<Rightarrow>
     real list \<times> rng \<Rightarrow> real list \<times> rng" where
  "pileColumnOpen ext numCopies fct twown halfdt nkT c1_0 c3_0 mass colr =
     (let (col, r) = colr;
          v = dct ext 2 col fct True;
          (x, r0) = getNormallyDistributedRandomNumber r;
          v0 = v[0 := v ! 0 * c1_0 + c3_0 * x];
          (v', r') = fold (pileModeStepOpen numCopies twown halfdt nkT mass) [1..<numCopies] (v0, r0)
      in (dct ext 3 v' fct True, r'))"

text \<open>The body of the loop over the components, open path (lines 297-321).\<close>

definition thermostatComponentOpen ::
  "'e External \<Rightarrow> nat \<Rightarrow> real \<Rightarrow> real \<Rightarrow> real \<Rightarrow> real \<Rightarrow> real \<Rightarrow> real \<Rightarrow> real \<Rightarrow> nat \<Rightarrow> nat \<Rightarrow>
     vec3 list list \<times> rng \<Rightarrow> vec3 list list \<times> rng" where
  "thermostatComponentOpen ext numCopies fct twown halfdt nkT c1_0 c3_0 mass particle axis velr =
     (let (vel, r) = velr;
          (v, r') = pileColumnOpen ext numCopies fct twown halfdt nkT c1_0 c3_0 mass
                      (readColumn vel particle axis numCopies, r)
      in (writeColumn vel particle axis numCopies (\<lambda>k. v ! k), r'))"

text \<open>The thermostat block of the open path (lines 292-323 and 379-409).\<close>

definition thermostatOpen ::
  "'e External \<Rightarrow> System \<Rightarrow> RPMDIntegrator \<Rightarrow> nat \<Rightarrow> nat \<Rightarrow> vec3 list list \<times> rng \<Rightarrow>
     vec3 list list \<times> rng" where
  "thermostatOpen ext sys integ numCopies numParticles velr =
     (let halfdt = 0.5 * getStepSize integ;
          nkT = real numCopies * BOLTZ ext * getTemperature integ;
          nkTm1 = (real numCopies - 1) * BOLTZ ext * getTemperature integ;
          twown = 2 * nkTm1 / hbar ext;
          c1_0 = exp (- halfdt * getFriction integ);
          c2_0 = sqrt (1 - c1_0 * c1_0);
          norm = sqrt (2 * real numCopies);
          fct = 1 / norm
      in if getApplyThermostat integ then
           fold (\<lambda>particle velr.
                  if getParticleMass sys particle = 0 then velr
                  else
                    (let c3_0 = c2_0 * sqrt (nkT / getParticleMass sys particle)
                     in fold (thermostatComponentOpen ext numCopies fct twown halfdt nkT c1_0 c3_0
                                (getParticleMass sys particle) particle)
                          [0..<3] velr))
             [0..<numParticles] velr
         else velr)"

text \<open>One pass of the mode loop of the free chain (lines 346-355).\<close>

definition driftModeStepOpen ::
  "nat \<Rightarrow> real \<Rightarrow> real \<Rightarrow> nat \<Rightarrow> real list \<times> real list \<Rightarrow> real list \<times> real list" where
  "driftModeStepOpen numCopies twown dt k qv =
     (let (q, v) = qv;
          wk = twown * sin (real k * pi / real numCopies / 2);
          wt = wk * dt;
          coswt = cos wt;
          sinwt = sin wt;
          vprime = v ! k * coswt - q ! k * (wk * sinwt);
          q' = q[k := v ! k * (sinwt / wk) + q ! k * coswt]
      in (q', v[k := vprime]))"

definition driftColumnOpen ::
  "'e External \<Rightarrow> nat \<Rightarrow> real \<Rightarrow> real \<Rightarrow> real \<Rightarrow> real list \<times> real list \<Rightarrow>
     real list \<times> real list" where
  "driftColumnOpen ext numCopies fct twown dt qv =
     (let (qcol, vcol) = qv;
          q = dct ext 2 qcol fct True;
          v = dct ext 2 vcol fct True;
          q0 = q[0 := q ! 0 + v ! 0 * dt];
          (q', v') = fold (driftModeStepOpen numCopies twown dt) [1..<numCopies] (q0, v)
      in (dct ext 3 q' fct True, dct ext 3 v' fct True))"

text \<open>The body of the loop over the components, open path (lines 338-362).\<close>

definition driftComponentOpen ::
  "'e External \<Rightarrow> nat \<Rightarrow> real \<Rightarrow> real \<Rightarrow> real \<Rightarrow> nat \<Rightarrow> nat \<Rightarrow>
     vec3 list list \<times> vec3 list list \<Rightarrow> vec3 list list \<times> vec3 list list" where
  "driftComponentOpen ext numCopies fct twown dt particle axis pv =
     (let (pos, vel) = pv;
          (q, v) = driftColumnOpen ext numCopies fct twown dt
                     (readColumn pos particle axis numCopies,
                      readColumn vel particle axis numCopies)
      in (writeColumn pos particle axis numCopies (\<lambda>k. q ! k),
          writeColumn vel particle axis numCopies (\<lambda>k. v ! k)))"

text \<open>The free chain block (lines 334-364).\<close>

definition driftOpen ::
  "'e External \<Rightarrow> System \<Rightarrow> RPMDIntegrator \<Rightarrow> nat \<Rightarrow> nat \<Rightarrow>
     vec3 list list \<times> vec3 list list \<Rightarrow> vec3 list list \<times> vec3 list list" where
  "driftOpen ext sys integ numCopies numParticles pv =
     (let dt = getStepSize integ;
          nkTm1 = (real numCopies - 1) * BOLTZ ext * getTemperature integ;
          twown = 2 * nkTm1 / hbar ext;
          norm = sqrt (2 * real numCopies);
          fct = 1 / norm
      in fold (\<lambda>particle pv.
                if getParticleMass sys particle = 0 then pv
                else fold (driftComponentOpen ext numCopies fct twown dt particle) [0..<3] pv)
           [0..<numParticles] pv)"

subsection \<open>Force computation\<close>

text \<open>A loop whose body may throw: the first exception ends it.\<close>

fun forEach :: "(nat \<Rightarrow> 's \<Rightarrow> 's result) \<Rightarrow> nat list \<Rightarrow> 's \<Rightarrow> 's result" where
  "forEach body [] s = Done s"
| "forEach body (i # is) s =
     (case body i s of
        Thrown e s' \<Rightarrow> Thrown e s'
      | Done s' \<Rightarrow> forEach body is s')"

text \<open>
  The body of the loop over all copies (lines 431-446 and 520-535): stage bead \<open>i\<close>, let
  the context update its state, refuse a changed periodic box, copy the bead back and
  store the forces of the groups that are not contracted.
\<close>

definition evaluateBead :: "'e External \<Rightarrow> nat \<Rightarrow> 'e world \<Rightarrow> 'e world result" where
  "evaluateBead ext i w =
     (let k = kern w;
          c1 = (ctx w)\<lparr>ctxPositions := positions k ! i, ctxVelocities := velocities k ! i\<rparr>;
          c2 = computeVirtualSites ext c1;
          initialBox = periodicBox c2;
          c3 = updateContextState ext c2;
          finalBox = periodicBox c3
      in if fst initialBox \<noteq> fst finalBox \<or> fst (snd initialBox) \<noteq> fst (snd finalBox)
            \<or> snd (snd initialBox) \<noteq> snd (snd finalBox)
         then Thrown barostatError (w\<lparr>ctx := c3\<rparr>)
         else
           (let k1 = k\<lparr>positions := (positions k)[i := ctxPositions c3],
                       velocities := (velocities k)[i := ctxVelocities c3]\<rparr>;
                c4 = calcForcesAndEnergy ext True False (groupsNotContracted k1) c3;
                k2 = k1\<lparr>forces := (forces k1)[i := ctxForces c4]\<rparr>
            in Done (w\<lparr>kern := k2, ctx := c4\<rparr>)))"

text \<open>
  Ring-polymer contraction of one component of one particle.  \<open>packModes\<close> is the loop
  of lines 466-469, \<open>contractColumn\<close> lines 462-473: it returns the buffer \<open>q\<close> and the
  contracted positions.
\<close>

definition packModes :: "nat \<Rightarrow> nat \<Rightarrow> complex list \<Rightarrow> complex list" where
  "packModes totalCopies copies q =
     (let start = (copies + 1) div 2;
          end' = totalCopies - copies + start
      in fold (\<lambda>k q. q[k - (totalCopies - copies) := q ! k]) [end'..<totalCopies] q)"

definition contractColumn :: "nat \<Rightarrow> nat \<Rightarrow> real list \<Rightarrow> complex list \<times> real list" where
  "contractColumn totalCopies copies col =
     (let scale1 = 1 / real totalCopies;
          q = c2c totalCopies True (map (\<lambda>x. Complex x 0) col) 1;
          q' = (if copies > 1 then c2c copies False (packModes totalCopies copies q) 1 else q)
      in (q', map (\<lambda>k. scale1 * Re (q' ! k)) [0..<copies]))"

text \<open>
  The way back for the forces: \<open>unpackModes\<close> is the two loops of lines 497-502,
  \<open>extendColumn\<close> lines 493-505: from the buffer as the previous use left it and the
  contracted forces, the buffer and the amounts added to the forces of the copies.
  \<^verbatim>\<open>scale2\<close> is \<^verbatim>\<open>1.0/copies\<close>, a division by zero for a contraction to no copies.
\<close>

definition unpackModes :: "nat \<Rightarrow> nat \<Rightarrow> complex list \<Rightarrow> complex list" where
  "unpackModes totalCopies copies q =
     (let start = (copies + 1) div 2;
          end' = totalCopies - copies + start;
          q' = fold (\<lambda>k q. q[k := q ! (k - (totalCopies - copies))]) [end'..<totalCopies] q
      in fold (\<lambda>k q. q[k := 0]) [start..<end'] q')"

definition extendColumn ::
  "nat \<Rightarrow> nat \<Rightarrow> complex list \<Rightarrow> real list \<Rightarrow> complex list \<times> real list" where
  "extendColumn totalCopies copies q col =
     (let scale2 = 1 / real copies;
          q1 = fold (\<lambda>k q. q[k := Complex (col ! k) 0]) [0..<copies] q;
          q2 = (if copies > 1 then c2c copies True q1 1 else q1);
          q3 = c2c totalCopies False (unpackModes totalCopies copies q2) 1
      in (q3, map (\<lambda>k. scale2 * Re (q3 ! k)) [0..<totalCopies]))"

text \<open>The three phases of one contraction (lines 456-475, 479-484 and 488-507).\<close>

definition contractComponent ::
  "nat \<Rightarrow> nat \<Rightarrow> vec3 list list \<Rightarrow> nat \<Rightarrow> nat \<Rightarrow> vec3 list list \<times> complex list \<Rightarrow>
     vec3 list list \<times> complex list" where
  "contractComponent totalCopies copies pos particle axis cq =
     (let (cpos, q) = cq;
          (q', vals) = contractColumn totalCopies copies (readColumn pos particle axis totalCopies)
      in (writeColumn cpos particle axis copies (\<lambda>k. vals ! k), q'))"

definition contractPositions ::
  "nat \<Rightarrow> nat \<Rightarrow> nat \<Rightarrow> vec3 list list \<Rightarrow> vec3 list list \<times> complex list \<Rightarrow>
     vec3 list list \<times> complex list" where
  "contractPositions totalCopies numParticles copies pos cq =
     fold (\<lambda>particle cq. fold (contractComponent totalCopies copies pos particle) [0..<3] cq)
       [0..<numParticles] cq"

definition evaluateContracted :: "'e External \<Rightarrow> 32 word \<Rightarrow> nat \<Rightarrow> 'e world \<Rightarrow> 'e world" where
  "evaluateContracted ext groupFlags i w =
     (let k = kern w;
          c1 = (ctx w)\<lparr>ctxPositions := contractedPositions k ! i\<rparr>;
          c2 = computeVirtualSites ext c1;
          c3 = calcForcesAndEnergy ext True False groupFlags c2
      in w\<lparr>kern := k\<lparr>contractedForces := (contractedForces k)[i := ctxForces c3]\<rparr>,
            ctx := c3\<rparr>)"

definition extendComponent ::
  "nat \<Rightarrow> nat \<Rightarrow> vec3 list list \<Rightarrow> nat \<Rightarrow> nat \<Rightarrow> vec3 list list \<times> complex list \<Rightarrow>
     vec3 list list \<times> complex list" where
  "extendComponent totalCopies copies cfrc particle axis fq =
     (let (frc, q) = fq;
          (q', add) = extendColumn totalCopies copies q (readColumn cfrc particle axis copies)
      in (writeColumn frc particle axis totalCopies
            (\<lambda>k. component (frc ! k ! particle) axis + add ! k), q'))"

definition extendForces ::
  "nat \<Rightarrow> nat \<Rightarrow> nat \<Rightarrow> vec3 list list \<Rightarrow> vec3 list list \<times> complex list \<Rightarrow>
     vec3 list list \<times> complex list" where
  "extendForces totalCopies numParticles copies cfrc fq =
     fold (\<lambda>particle fq. fold (extendComponent totalCopies copies cfrc particle) [0..<3] fq)
       [0..<numParticles] fq"

text \<open>The body of the loop over \<open>groupsByCopies\<close> in the closed path (lines 450-508).\<close>

definition contraction ::
  "'e External \<Rightarrow> nat \<Rightarrow> nat \<Rightarrow> int \<times> 32 word \<Rightarrow> 'e world \<Rightarrow> 'e world" where
  "contraction ext totalCopies numParticles g w =
     (let copies = nat (fst g);
          groupFlags = snd g;
          q = replicate totalCopies 0;
          (cpos, q1) = contractPositions totalCopies numParticles copies (positions (kern w))
                         (contractedPositions (kern w), q);
          w1 = w\<lparr>kern := (kern w)\<lparr>contractedPositions := cpos\<rparr>\<rparr>;
          w2 = fold (evaluateContracted ext groupFlags) [0..<copies] w1;
          (frc, q2) = extendForces totalCopies numParticles copies (contractedForces (kern w2))
                        (forces (kern w2), q1)
      in w2\<lparr>kern := (kern w2)\<lparr>forces := frc\<rparr>\<rparr>)"

text \<open>\<open>computeForcesClosedPath\<close> (lines 422-509).\<close>

definition computeForcesClosedPath :: "'e External \<Rightarrow> 'e world \<Rightarrow> 'e world result" where
  "computeForcesClosedPath ext w =
     (case forEach (evaluateBead ext) [0..<copiesOf (kern w)] w of
        Thrown e w' \<Rightarrow> Thrown e w'
      | Done w' \<Rightarrow>
          Done (fold (contraction ext (copiesOf (kern w)) (particlesOf (kern w)))
                  (groupsByCopies (kern w')) w'))"

text \<open>
  The endpoint loop of the open path (lines 538-541): per particle, the force on the
  first copy and then the force on the last copy are multiplied by 0.5.
\<close>

definition halveEndpoints :: "nat \<Rightarrow> nat \<Rightarrow> vec3 list list \<Rightarrow> vec3 list list" where
  "halveEndpoints totalCopies numParticles frc =
     fold (\<lambda>i f.
            (let f1 = f[0 := (f ! 0)[i := scaleVec (f ! 0 ! i) 0.5]]
             in f1[totalCopies - 1 :=
                     (f1 ! (totalCopies - 1))[i := scaleVec (f1 ! (totalCopies - 1) ! i) 0.5]]))
       [0..<numParticles] frc"

text \<open>
  \<open>computeForcesOpenPath\<close> (lines 511-615).  The loop over \<open>groupsByCopies\<close> throws in
  its first pass, so the statements after the \<^verbatim>\<open>throw\<close> are never reached.
\<close>

definition computeForcesOpenPath :: "'e External \<Rightarrow> 'e world \<Rightarrow> 'e world result" where
  "computeForcesOpenPath ext w =
     (case forEach (evaluateBead ext) [0..<copiesOf (kern w)] w of
        Thrown e w' \<Rightarrow> Thrown e w'
      | Done w' \<Rightarrow>
          (let k = kern w';
               w'' = w'\<lparr>kern := k\<lparr>forces :=
                        halveEndpoints (copiesOf (kern w)) (particlesOf (kern w)) (forces k)\<rparr>\<rparr>
           in case groupsByCopies (kern w'') of
                [] \<Rightarrow> Done w''
              | g # _ \<Rightarrow> Thrown lepigsError w''))"

subsection \<open>The step\<close>

text \<open>The tail shared by both paths: advance the time and the step count.\<close>

definition advanceTime :: "real \<Rightarrow> 'e world \<Rightarrow> 'e world" where
  "advanceTime dt w =
     w\<lparr>ctx := (ctx w)\<lparr>ctxTime := ctxTime (ctx w) + dt,
                        ctxStepCount := ctxStepCount (ctx w) + 1\<rparr>\<rparr>"

text \<open>
  The integrator's own arithmetic of a step, before and after the force computation
  in the middle: thermostat, velocity update and free polymer; then velocity update
  and thermostat.  \<open>numCopies\<close> and \<open>numParticles\<close> are read once, on entry.
\<close>

definition firstHalfClosed ::
  "'e External \<Rightarrow> System \<Rightarrow> RPMDIntegrator \<Rightarrow> nat \<Rightarrow> nat \<Rightarrow> 'e world \<Rightarrow> 'e world" where
  "firstHalfClosed ext sys integ numCopies numParticles w =
     (let halfdt = 0.5 * getStepSize integ;
          (vel1, r1) = thermostatClosed ext sys integ numCopies numParticles
                         (velocities (kern w), rand w);
          vel2 = kick sys halfdt numCopies numParticles (forces (kern w)) vel1;
          (pos3, vel3) = driftClosed ext sys integ numCopies numParticles (positions (kern w), vel2)
      in w\<lparr>kern := (kern w)\<lparr>positions := pos3, velocities := vel3\<rparr>, rand := r1\<rparr>)"

definition secondHalfClosed ::
  "'e External \<Rightarrow> System \<Rightarrow> RPMDIntegrator \<Rightarrow> nat \<Rightarrow> nat \<Rightarrow> 'e world \<Rightarrow> 'e world" where
  "secondHalfClosed ext sys integ numCopies numParticles w =
     (let halfdt = 0.5 * getStepSize integ;
          vel1 = kick sys halfdt numCopies numParticles (forces (kern w)) (velocities (kern w));
          (vel2, r2) = thermostatClosed ext sys integ numCopies numParticles (vel1, rand w)
      in advanceTime (getStepSize integ) (w\<lparr>kern := (kern w)\<lparr>velocities := vel2\<rparr>, rand := r2\<rparr>))"

text \<open>\<open>executeClosedPath\<close> (lines 109-261).\<close>

definition executeClosedPath ::
  "'e External \<Rightarrow> System \<Rightarrow> RPMDIntegrator \<Rightarrow> bool \<Rightarrow> 'e world \<Rightarrow> 'e world result" where
  "executeClosedPath ext sys integ forcesAreValid w =
     (let numCopies = copiesOf (kern w);
          numParticles = particlesOf (kern w)
      in case (if \<not> forcesAreValid then computeForcesClosedPath ext w else Done w) of
           Thrown e w' \<Rightarrow> Thrown e w'
         | Done w1 \<Rightarrow>
             (case computeForcesClosedPath ext
                     (firstHalfClosed ext sys integ numCopies numParticles w1) of
                Thrown e w' \<Rightarrow> Thrown e w'
              | Done w2 \<Rightarrow> Done (secondHalfClosed ext sys integ numCopies numParticles w2)))"

definition firstHalfOpen ::
  "'e External \<Rightarrow> System \<Rightarrow> RPMDIntegrator \<Rightarrow> nat \<Rightarrow> nat \<Rightarrow> 'e world \<Rightarrow> 'e world" where
  "firstHalfOpen ext sys integ numCopies numParticles w =
     (let halfdt = 0.5 * getStepSize integ;
          (vel1, r1) = thermostatOpen ext sys integ numCopies numParticles
                         (velocities (kern w), rand w);
          vel2 = kick sys halfdt numCopies numParticles (forces (kern w)) vel1;
          (pos3, vel3) = driftOpen ext sys integ numCopies numParticles (positions (kern w), vel2)
      in w\<lparr>kern := (kern w)\<lparr>positions := pos3, velocities := vel3\<rparr>, rand := r1\<rparr>)"

definition secondHalfOpen ::
  "'e External \<Rightarrow> System \<Rightarrow> RPMDIntegrator \<Rightarrow> nat \<Rightarrow> nat \<Rightarrow> 'e world \<Rightarrow> 'e world" where
  "secondHalfOpen ext sys integ numCopies numParticles w =
     (let halfdt = 0.5 * getStepSize integ;
          vel1 = kick sys halfdt numCopies numParticles (forces (kern w)) (velocities (kern w));
          (vel2, r2) = thermostatOpen ext sys integ numCopies numParticles (vel1, rand w)
      in advanceTime (getStepSize integ) (w\<lparr>kern := (kern w)\<lparr>velocities := vel2\<rparr>, rand := r2\<rparr>))"

text \<open>\<open>executeOpenPath\<close> (lines 263-415).\<close>

definition executeOpenPath ::
  "'e External \<Rightarrow> System \<Rightarrow> RPMDIntegrator \<Rightarrow> bool \<Rightarrow> 'e world \<Rightarrow> 'e world result" where
  "executeOpenPath ext sys integ forcesAreValid w =
     (let numCopies = copiesOf (kern w);
          numParticles = particlesOf (kern w)
      in case (if \<not> forcesAreValid then computeForcesOpenPath ext w else Done w) of
           Thrown e w' \<Rightarrow> Thrown e w'
         | Done w1 \<Rightarrow>
             (case computeForcesOpenPath ext
                     (firstHalfOpen ext sys integ numCopies numParticles w1) of
                Thrown e w' \<Rightarrow> Thrown e w'
              | Done w2 \<Rightarrow> Done (secondHalfOpen ext sys integ numCopies numParticles w2)))"

text \<open>\<open>execute\<close> (lines 417-420).\<close>

definition execute ::
  "'e External \<Rightarrow> System \<Rightarrow> RPMDIntegrator \<Rightarrow> bool \<Rightarrow> 'e world \<Rightarrow> 'e world result" where
  "execute ext sys integ forcesAreValid w =
     (if getUseOpenPath integ then executeOpenPath ext sys integ forcesAreValid w
      else executeClosedPath ext sys integ forcesAreValid w)"

text \<open>A physics engine whose state update never changes the periodic box.\<close>

definition keepsBox :: "'e External \<Rightarrow> bool" where
  "keepsBox ext = (\<forall>c. periodicBox (updateContextState ext c) = periodicBox c)"

subsection \<open>A small test system\<close>

text \<open>
  One particle of unit mass, \<open>P\<close> copies at rest with zero forces; an engine that leaves
  the context alone, except that every force evaluation returns the force \<open>(2, 2, 2)\<close>.
\<close>

definition testExternal :: "unit External" where
  "testExternal = \<lparr>BOLTZ = 1, AVOGADRO = 1, dct = (\<lambda>t xs fct ortho. xs),
     computeVirtualSites = (\<lambda>c. c), updateContextState = (\<lambda>c. c),
     calcForcesAndEnergy = (\<lambda>f e g c. c\<lparr>ctxForces := [(2, 2, 2)]\<rparr>)\<rparr>"

definition testContext :: "unit Context" where
  "testContext = \<lparr>ctxPositions = [zero3], ctxVelocities = [zero3], ctxForces = [zero3],
     periodicBox = ((1, 0, 0), (0, 1, 0), (0, 0, 1)), ctxTime = 0, ctxStepCount = 0,
     engineState = ()\<rparr>"

definition testWorld :: "nat \<Rightarrow> (int \<times> 32 word) list \<Rightarrow> unit world" where
  "testWorld P gbc =
     \<lparr>kern = \<lparr>positions = replicate P [zero3], velocities = replicate P [zero3],
               forces = replicate P [zero3], contractedPositions = [], contractedForces = [],
               groupsNotContracted = 1, groupsByCopies = gbc\<rparr>,
      ctx = testContext, rand = (\<lambda>n. 0)\<rparr>"

definition testIntegrator :: "int \<Rightarrow> bool \<Rightarrow> RPMDIntegrator" where
  "testIntegrator P openPath =
     \<lparr>getNumCopies = P, getContractions = [], getIntegrationForceGroups = 1, getStepSize = 1,
      getTemperature = 1, getFriction = 1, getApplyThermostat = False,
      getUseOpenPath = openPath\<rparr>"

text \<open>
  Two copies of two particles in motion, for a system whose first particle has mass zero.
\<close>

definition movingWorld :: "unit world" where
  "movingWorld =
     \<lparr>kern = \<lparr>positions = [[(1, 2, 3), (0, 0, 0)], [(4, 5, 6), (1, 1, 1)]],
               velocities = [[(1, 0, - 1), (1, 1, 1)], [(2, 2, 2), (0, 1, 0)]],
               forces = [[(3, 3, 3), (2, 4, 6)], [(1, 2, 3), (4, 4, 4)]],
               contractedPositions = [], contractedForces = [],
               groupsNotContracted = 1, groupsByCopies = []\<rparr>,
      ctx = testContext, rand = (\<lambda>n. real n + 1)\<rparr>"

text \<open>Velocities of four copies of three particles.\<close>

definition thermostatWorld :: "vec3 list list" where
  "thermostatWorld =
     [[(1, 0, 0), (0, 1, 0), (1, 2, 3)],
      [(0, 1, 0), (0, 0, 1), (2, 0, 1)],
      [(0, 0, 1), (1, 0, 0), (3, 1, 4)],
      [(1, 1, 1), (0, 0, 0), (4, 3, 1)]]"

subsection \<open>Notions used in the statements\<close>

text \<open>The entries of particle \<open>j\<close> in every copy of an array.\<close>

definition particleRow :: "nat \<Rightarrow> vec3 list list \<Rightarrow> vec3 list" where
  "particleRow j a = map (\<lambda>bead. bead ! j) a"

text \<open>An array of \<open>P\<close> copies of \<open>N\<close> particles.\<close>

definition shaped :: "nat \<Rightarrow> nat \<Rightarrow> vec3 list list \<Rightarrow> bool" where
  "shaped P N a = (length a = P \<and> (\<forall>k < P. length (a ! k) = N))"

text \<open>
  The free-polymer update as the specification writes it: the frequency
  \<open>\<omega>\<^sub>k = \<omega>\<^sub>n sin (k \<pi> / P)\<close>, and for mode \<open>k\<close> the new position
  \<open>v\<^sub>k s / \<omega>\<^sub>k + q\<^sub>k c\<close> and the new velocity \<open>v\<^sub>k c - q\<^sub>k \<omega>\<^sub>k s\<close>, both from the old
  \<open>q\<close> and \<open>v\<close>, with \<open>c = cos (\<omega>\<^sub>k \<Delta>t)\<close> and \<open>s = sin (\<omega>\<^sub>k \<Delta>t)\<close>; the centroid moves
  freely.
\<close>

definition modeFrequency :: "real \<Rightarrow> nat \<Rightarrow> nat \<Rightarrow> real" where
  "modeFrequency wn P k = wn * sin (real k * pi / real P)"

definition driftedPosition ::
  "nat \<Rightarrow> real \<Rightarrow> real \<Rightarrow> complex list \<Rightarrow> complex list \<Rightarrow> nat \<Rightarrow> complex" where
  "driftedPosition P wn dt q v k =
     (if k = 0 then q ! 0 + v ! 0 * of_real dt
      else v ! k * of_real (sin (modeFrequency wn P k * dt) / modeFrequency wn P k)
           + q ! k * of_real (cos (modeFrequency wn P k * dt)))"

definition driftedVelocity ::
  "nat \<Rightarrow> real \<Rightarrow> real \<Rightarrow> complex list \<Rightarrow> complex list \<Rightarrow> nat \<Rightarrow> complex" where
  "driftedVelocity P wn dt q v k =
     (if k = 0 then v ! 0
      else v ! k * of_real (cos (modeFrequency wn P k * dt))
           - q ! k * of_real (modeFrequency wn P k * sin (modeFrequency wn P k * dt)))"

text \<open>
  The same for one component of one particle over all copies: scale, transform, update
  every mode, transform back, scale the real parts.
\<close>

definition driftedColumns ::
  "nat \<Rightarrow> real \<Rightarrow> real \<Rightarrow> real \<Rightarrow> real list \<times> real list \<Rightarrow> real list \<times> real list" where
  "driftedColumns P scale wn dt cols =
     (let q = c2c P True (map (\<lambda>x. Complex (scale * x) 0) (fst cols)) 1;
          v = c2c P True (map (\<lambda>x. Complex (scale * x) 0) (snd cols)) 1;
          q' = c2c P False (map (driftedPosition P wn dt q v) [0..<P]) 1;
          v' = c2c P False (map (driftedVelocity P wn dt q v) [0..<P]) 1
      in (map (\<lambda>k. scale * Re (q' ! k)) [0..<P], map (\<lambda>k. scale * Re (v' ! k)) [0..<P]))"

text \<open>The position and velocity columns of one component of one particle.\<close>

definition columns :: "nat \<Rightarrow> nat \<Rightarrow> nat \<Rightarrow> vec3 list list \<times> vec3 list list \<Rightarrow> real list \<times> real list"
  where "columns P p c s = (readColumn (fst s) p c P, readColumn (snd s) p c P)"

definition shaped2 :: "nat \<Rightarrow> nat \<Rightarrow> vec3 list list \<times> vec3 list list \<Rightarrow> bool" where
  "shaped2 P N s = (shaped P N (fst s) \<and> shaped P N (snd s))"

text \<open>
  The thermostat coefficients as the specification writes them: \<open>c1 = exp (- 2 \<omega>\<^sub>k \<Delta>t / 2)\<close>,
  \<open>c2 = sqrt ((1 - c1\<^sup>2) / 2)\<close>, times \<open>sqrt 2\<close> at the Nyquist bin (\<open>P\<close> even and \<open>k = P / 2\<close>),
  and \<open>c3 = c2 sqrt (n k\<^sub>B T / m)\<close>.
\<close>

definition isNyquist :: "nat \<Rightarrow> nat \<Rightarrow> bool" where
  "isNyquist P k = (even P \<and> k = P div 2)"

definition pileC1 :: "real \<Rightarrow> real \<Rightarrow> nat \<Rightarrow> nat \<Rightarrow> real" where
  "pileC1 wn halfdt P k = exp (- 2 * modeFrequency wn P k * halfdt)"

definition pileC2 :: "real \<Rightarrow> real \<Rightarrow> nat \<Rightarrow> nat \<Rightarrow> real" where
  "pileC2 wn halfdt P k =
     sqrt ((1 - (pileC1 wn halfdt P k)\<^sup>2) / 2) * (if isNyquist P k then sqrt 2 else 1)"

definition pileC3 :: "real \<Rightarrow> real \<Rightarrow> real \<Rightarrow> real \<Rightarrow> nat \<Rightarrow> nat \<Rightarrow> real" where
  "pileC3 wn halfdt nkT mass P k = pileC2 wn halfdt P k * sqrt (nkT / mass)"

text \<open>A mode vector of a real signal: mode \<open>P - k\<close> is the conjugate of mode \<open>k\<close>.\<close>

definition hermitian :: "nat \<Rightarrow> complex list \<Rightarrow> bool" where
  "hermitian P v = (\<forall>k < P. v ! ((P - k) mod P) = cnj (v ! k))"

text \<open>
  The modes a contraction keeps, and the spectrum it pads, in terms of
  \<open>start = (P' + 1) div 2\<close>.
\<close>

definition keptModes :: "nat \<Rightarrow> nat \<Rightarrow> complex list \<Rightarrow> complex list" where
  "keptModes P P' q = take ((P' + 1) div 2) q @ drop (P - P' + (P' + 1) div 2) q"

definition paddedModes :: "nat \<Rightarrow> nat \<Rightarrow> complex list \<Rightarrow> complex list" where
  "paddedModes P P' f = take ((P' + 1) div 2) f @ replicate (P - P') 0 @ drop ((P' + 1) div 2) f"

text \<open>
  A contraction of one component as the specification describes it.  Positions: forward
  transform at length \<open>P\<close>, keep the low and the high modes, back transform at length
  \<open>P'\<close>, real part times \<open>1 / P\<close>.  Forces: forward transform at length \<open>P'\<close>, pad the middle
  with zeros, back transform at length \<open>P\<close>, real part times \<open>1 / P'\<close>.
\<close>

definition contractedColumn :: "nat \<Rightarrow> nat \<Rightarrow> real list \<Rightarrow> real list" where
  "contractedColumn P P' col =
     map (\<lambda>z. 1 / real P * Re z)
       (c2c P' False (keptModes P P' (c2c P True (map (\<lambda>x. Complex x 0) col) 1)) 1)"

definition extendedColumn :: "nat \<Rightarrow> nat \<Rightarrow> real list \<Rightarrow> real list" where
  "extendedColumn P P' fcol =
     map (\<lambda>z. 1 / real P' * Re z)
       (c2c P False (paddedModes P P' (c2c P' True (map (\<lambda>x. Complex x 0) fcol) 1)) 1)"

text \<open>
  The modes kept when \<open>start\<close> is read as the ceiling of \<open>(P' + 1) / 2\<close>, that is
  \<open>(P' + 2) div 2\<close>.
\<close>

definition keptModesCeiling :: "nat \<Rightarrow> nat \<Rightarrow> complex list \<Rightarrow> complex list" where
  "keptModesCeiling P P' q = take ((P' + 2) div 2) q @ drop (P - P' + (P' + 2) div 2) q"

text \<open>
  The spectrum the forces are transformed back from: the length-\<open>P'\<close> transform of the
  contracted forces at the front of the buffer \<open>q\<close>, after the two loops of lines 497-502.
\<close>

definition spreadModes :: "nat \<Rightarrow> nat \<Rightarrow> complex list \<Rightarrow> real list \<Rightarrow> complex list" where
  "spreadModes P P' q fcol =
     unpackModes P P' (c2c P' True (map (\<lambda>x. Complex x 0) fcol) 1 @ drop P' q)"

text \<open>
  The force pass of the open path when no exception interrupts it: \<open>beadEvaluated\<close> is
  what the loop body does to copy \<open>i\<close> when the periodic box is unchanged, and
  \<open>forcesGathered\<close> is the state after the loop over all copies and the endpoint loop.
\<close>

definition beadEvaluated :: "'e External \<Rightarrow> nat \<Rightarrow> 'e world \<Rightarrow> 'e world" where
  "beadEvaluated ext i w =
     (let k = kern w;
          c3 = updateContextState ext (computeVirtualSites ext
                 ((ctx w)\<lparr>ctxPositions := positions k ! i, ctxVelocities := velocities k ! i\<rparr>));
          k1 = k\<lparr>positions := (positions k)[i := ctxPositions c3],
                  velocities := (velocities k)[i := ctxVelocities c3]\<rparr>;
          c4 = calcForcesAndEnergy ext True False (groupsNotContracted k1) c3
      in w\<lparr>kern := k1\<lparr>forces := (forces k1)[i := ctxForces c4]\<rparr>, ctx := c4\<rparr>)"

definition forcesGathered :: "'e External \<Rightarrow> 'e world \<Rightarrow> 'e world" where
  "forcesGathered ext w =
     (let w' = fold (beadEvaluated ext) [0..<copiesOf (kern w)] w
      in w'\<lparr>kern := (kern w')\<lparr>forces :=
            halveEndpoints (copiesOf (kern w)) (particlesOf (kern w)) (forces (kern w'))\<rparr>\<rparr>)"

text \<open>
  The thermostat as the specification writes it.  \<open>thermostattedMode\<close> is mode \<open>k\<close> after
  the update, from the modes \<open>v\<close> and the draws \<open>r\<close> before it: the centroid with its own
  coefficients and draw 0; an internal mode \<open>k \<le> P div 2\<close> with \<open>c1\<close>, \<open>c3\<close> and the draws
  \<open>2 k - 1\<close> and \<open>2 k\<close> (no imaginary noise at the Nyquist bin); a mode above \<open>P div 2\<close> as
  the mirror of mode \<open>P - k\<close>, with the conjugate noise.  \<open>thermostattedColumn\<close> is the
  velocity column of one component of one particle after it: scale, transform, update
  every mode, transform back, scale the real parts; \<open>thermostattedVelocities\<close> takes the
  parameters from the integrator and the system as the kernel does (lines 113, 128-133
  and 139).  \<open>drawsBefore\<close> counts the draws consumed before the column of component \<open>c\<close> of
  particle \<open>p\<close> is reached: \<open>P\<close> for each component of each earlier particle of non-zero
  mass and each earlier component of \<open>p\<close>.
\<close>

definition thermostattedMode ::
  "nat \<Rightarrow> real \<Rightarrow> real \<Rightarrow> real \<Rightarrow> real \<Rightarrow> real \<Rightarrow> real \<Rightarrow> complex list \<Rightarrow> rng \<Rightarrow> nat \<Rightarrow> complex"
  where
  "thermostattedMode P wn halfdt nkT c1_0 c3_0 mass v r k =
     (if k = 0 then Complex (Re (v ! 0) * c1_0 + c3_0 * r 0) (Im (v ! 0))
      else if k \<le> P div 2 then
        v ! k * of_real (pileC1 wn halfdt P k) +
          Complex (pileC3 wn halfdt nkT mass P k * r (2 * k - 1))
            (if isNyquist P k then 0 else pileC3 wn halfdt nkT mass P k * r (2 * k))
      else
        v ! k * of_real (pileC1 wn halfdt P (P - k)) +
          Complex (pileC3 wn halfdt nkT mass P (P - k) * r (2 * (P - k) - 1))
            (- (pileC3 wn halfdt nkT mass P (P - k) * r (2 * (P - k)))))"

definition thermostattedColumn ::
  "nat \<Rightarrow> real \<Rightarrow> real \<Rightarrow> real \<Rightarrow> real \<Rightarrow> real \<Rightarrow> real \<Rightarrow> real \<Rightarrow> real list \<Rightarrow> rng \<Rightarrow> real list"
  where
  "thermostattedColumn P scale wn halfdt nkT c1_0 c3_0 mass col r =
     (let v = c2c P True (map (\<lambda>x. Complex (scale * x) 0) col) 1;
          v' = c2c P False (map (thermostattedMode P wn halfdt nkT c1_0 c3_0 mass v r) [0..<P]) 1
      in map (\<lambda>k. scale * Re (v' ! k)) [0..<P])"

definition thermostattedVelocities ::
  "'e External \<Rightarrow> System \<Rightarrow> RPMDIntegrator \<Rightarrow> nat \<Rightarrow> nat \<Rightarrow> real list \<Rightarrow> rng \<Rightarrow> real list" where
  "thermostattedVelocities ext sys integ P p col r =
     (let halfdt = 0.5 * getStepSize integ;
          nkT = real P * BOLTZ ext * getTemperature integ;
          wn = 2 * nkT / hbar ext;
          c1_0 = exp (- halfdt * getFriction integ);
          c3_0 = sqrt (1 - c1_0 * c1_0) * sqrt (nkT / getParticleMass sys p)
      in thermostattedColumn P (1 / sqrt (real P)) wn halfdt nkT c1_0 c3_0
           (getParticleMass sys p) col r)"

definition drawsBefore :: "System \<Rightarrow> nat \<Rightarrow> nat \<Rightarrow> nat \<Rightarrow> nat" where
  "drawsBefore sys P p c =
     P * (3 * length (filter (\<lambda>j. getParticleMass sys j \<noteq> 0) [0..<p]) + c)"

text \<open>
  A configuration on which the integrator's arithmetic stays within the real numbers:
  step size and friction are not negative, temperature and constants are positive, no
  mass is negative.
\<close>

definition physical :: "'e External \<Rightarrow> System \<Rightarrow> RPMDIntegrator \<Rightarrow> bool" where
  "physical ext sys integ =
     (0 \<le> getStepSize integ \<and> 0 \<le> getFriction integ \<and> 0 < getTemperature integ \<and>
      0 < BOLTZ ext \<and> 0 < AVOGADRO ext \<and> (\<forall>m \<in> set (masses sys). 0 \<le> m))"

section \<open>Properties of initialize\<close>

lemma map_of_map_put: "map_of (map_put m k v) = (map_of m)(k \<mapsto> v)"
  by (induction m k v rule: map_put.induct) (auto simp: fun_upd_twist)

lemma keys_map_put: "fst ` set (map_put m k v) = insert k (fst ` set m)"
  by (induction m k v rule: map_put.induct) auto

lemma sorted_map_put:
  "sorted_wrt (<) (map fst m) \<Longrightarrow> sorted_wrt (<) (map fst (map_put m k v))"
proof (induction m k v rule: map_put.induct)
  case (1 k v)
  then show ?case by simp
next
  case (2 k' v' m k v)
  have "fst ` set (map_put m k v) = insert k (fst ` set m)" by (rule keys_map_put)
  with 2 show ?case by (auto simp: keys_map_put)
qed

lemma bit_groupBit: "0 \<le> g \<Longrightarrow> g \<le> 31 \<Longrightarrow> bit (groupBit g) n \<longleftrightarrow> n = nat g"
  by (auto simp: groupBit_def bit_exp_iff possible_bit_word)

lemma bit_unionMasks: "bit (unionMasks ms) n \<longleftrightarrow> (\<exists>m \<in> set ms. bit m n)"
  by (induction ms) (auto simp: unionMasks_def bit_or_iff)

lemma clear_set_bit: "(x::32 word) AND b = b \<Longrightarrow> x - b = x AND NOT b"
  by (metis bit_and_iff disjunctive_diff)

lemma maskFor_map_put: "maskFor (map_put m k v) c = (if c = k then v else maskFor m c)"
  by (simp add: maskFor_def map_find_def map_of_map_put)

lemma contractionStep_Inl:
  "contractionStep P e st = Inl err \<longleftrightarrow>
     (if fst e < 0 \<or> fst e > 31 then err = groupError
      else (snd e < 0 \<or> snd e > P) \<and> err = copiesError)"
  by (cases e; cases st) (auto split: option.split)

lemma contractionStep_Inr:
  "contractionStep P (g, c) (gnc, gbc, maxc) = Inr st' \<longleftrightarrow>
     validEntry P (g, c) \<and>
     st' = (if c = P then (gnc, gbc, maxc)
            else (gnc - groupBit g, map_put gbc c (maskFor gbc c OR groupBit g),
                  if map_find gbc c = None \<and> c > maxc then c else maxc))"
  by (auto simp: validEntry_def maskFor_def split: option.split)


declare contractionStep.simps [simp del]

lemma buildContractions_Cons_Inr:
  "buildContractions P ((g, c) # cs) (gnc, gbc, maxc) = Inr st' \<longleftrightarrow>
     validEntry P (g, c) \<and>
     buildContractions P cs
       (if c = P then (gnc, gbc, maxc)
        else (gnc - groupBit g, map_put gbc c (maskFor gbc c OR groupBit g),
              if map_find gbc c = None \<and> c > maxc then c else maxc)) = Inr st'"
proof (cases "contractionStep P (g, c) (gnc, gbc, maxc)")
  case (Inl e)
  have "\<not> validEntry P (g, c)"
  proof
    assume "validEntry P (g, c)"
    then have "\<exists>st1. contractionStep P (g, c) (gnc, gbc, maxc) = Inr st1"
      unfolding contractionStep_Inr by simp
    then show False using Inl by simp
  qed
  then show ?thesis using Inl by simp
next
  case (Inr st1)
  then show ?thesis using Inr contractionStep_Inr[of P g c gnc gbc maxc st1] by simp
qed

lemma buildContractions_valid:
  "buildContractions P cs st = Inr st' \<Longrightarrow> e \<in> set cs \<Longrightarrow> validEntry P e"
proof (induction cs arbitrary: st)
  case Nil
  then show ?case by simp
next
  case (Cons x cs)
  obtain g c where x: "x = (g, c)" by (cases x)
  obtain gnc gbc maxc where st: "st = (gnc, gbc, maxc)" by (cases st)
  from Cons.prems(1) have vx: "validEntry P x" and
    "\<exists>st1. buildContractions P cs st1 = Inr st'"
    unfolding x st buildContractions_Cons_Inr by blast+
  then show ?case using Cons.IH Cons.prems(2) by auto
qed

lemma buildContractions_gnc:
  assumes "buildContractions P cs (gnc, gbc, maxc) = Inr (gnc', gbc', maxc')"
    and "distinct (map fst cs)"
    and "\<forall>e \<in> set cs. bit gnc (nat (fst e))"
  shows "bit gnc' n \<longleftrightarrow> bit gnc n \<and> \<not> (\<exists>e \<in> set cs. snd e \<noteq> P \<and> nat (fst e) = n)"
  using assms
proof (induction cs arbitrary: gnc gbc maxc)
  case Nil
  then show ?case by simp
next
  case (Cons x cs)
  obtain g c where x: "x = (g, c)" by (cases x)
  have vx: "validEntry P (g, c)" and vcs: "\<And>e. e \<in> set cs \<Longrightarrow> validEntry P e"
    using buildContractions_valid[OF Cons.prems(1)] by (simp_all add: x)
  have v: "0 \<le> g" "g \<le> 31" using vx by (simp_all add: validEntry_def)
  have bg: "bit gnc (nat g)" using Cons.prems(3) by (simp add: x)
  have sub: "gnc - groupBit g = gnc AND NOT (groupBit g)"
    by (rule clear_set_bit, rule bit_eqI) (use bg v in \<open>auto simp: bit_and_iff bit_groupBit\<close>)
  have others: "nat (fst e) \<noteq> nat g" if e: "e \<in> set cs" for e
  proof -
    have "fst e \<noteq> g" using Cons.prems(2) e by (auto simp: x)
    moreover have "0 \<le> fst e" using vcs[OF e] by (simp add: validEntry_def)
    ultimately show ?thesis using v(1) by auto
  qed
  have d: "distinct (map fst cs)" using Cons.prems(2) by simp
  show ?case
  proof (cases "c = P")
    case True
    then have run: "buildContractions P cs (gnc, gbc, maxc) = Inr (gnc', gbc', maxc')"
      using Cons.prems(1) unfolding x buildContractions_Cons_Inr by simp
    have pre: "\<forall>e \<in> set cs. bit gnc (nat (fst e))" using Cons.prems(3) by simp
    have "bit gnc' n \<longleftrightarrow> bit gnc n \<and> \<not> (\<exists>e \<in> set cs. snd e \<noteq> P \<and> nat (fst e) = n)"
      by (rule Cons.IH[OF run d pre])
    then show ?thesis using True by (simp add: x)
  next
    case False
    define gbc1 where "gbc1 = map_put gbc c (maskFor gbc c OR groupBit g)"
    define maxc1 where "maxc1 = (if map_find gbc c = None \<and> c > maxc then c else maxc)"
    have run: "buildContractions P cs (gnc - groupBit g, gbc1, maxc1) = Inr (gnc', gbc', maxc')"
      using Cons.prems(1) False unfolding x buildContractions_Cons_Inr gbc1_def maxc1_def
      by simp
    have pre: "\<forall>e \<in> set cs. bit (gnc - groupBit g) (nat (fst e))"
    proof
      fix e assume e: "e \<in> set cs"
      have "bit gnc (nat (fst e))" using Cons.prems(3) e by simp
      then show "bit (gnc - groupBit g) (nat (fst e))"
        using others[OF e] v vcs[OF e]
        by (simp add: sub bit_and_iff bit_not_iff bit_groupBit validEntry_def) linarith
    qed
    have IH: "bit gnc' n \<longleftrightarrow>
        bit (gnc - groupBit g) n \<and> \<not> (\<exists>e \<in> set cs. snd e \<noteq> P \<and> nat (fst e) = n)"
      by (rule Cons.IH[OF run d pre])
    have "bit (gnc - groupBit g) n \<longleftrightarrow> bit gnc n \<and> nat g \<noteq> n"
      using v by (auto simp: sub bit_and_iff bit_not_iff bit_groupBit dest: bit_imp_possible_bit)
    then show ?thesis using False IH by (simp add: x; blast?)
  qed
qed


lemma buildContractions_sorted:
  assumes "buildContractions P cs (gnc, gbc, maxc) = Inr (gnc', gbc', maxc')"
    and "sorted_wrt (<) (map fst gbc)"
  shows "sorted_wrt (<) (map fst gbc')"
  using assms
proof (induction cs arbitrary: gnc gbc maxc)
  case Nil
  then show ?case by simp
next
  case (Cons x cs)
  obtain g c where x: "x = (g, c)" by (cases x)
  show ?case
  proof (cases "c = P")
    case True
    then have run: "buildContractions P cs (gnc, gbc, maxc) = Inr (gnc', gbc', maxc')"
      using Cons.prems(1) unfolding x buildContractions_Cons_Inr by simp
    show ?thesis by (rule Cons.IH[OF run Cons.prems(2)])
  next
    case False
    define gbc1 where "gbc1 = map_put gbc c (maskFor gbc c OR groupBit g)"
    define maxc1 where "maxc1 = (if map_find gbc c = None \<and> c > maxc then c else maxc)"
    have run: "buildContractions P cs (gnc - groupBit g, gbc1, maxc1) = Inr (gnc', gbc', maxc')"
      using Cons.prems(1) False unfolding x buildContractions_Cons_Inr gbc1_def maxc1_def
      by simp
    have "sorted_wrt (<) (map fst gbc1)"
      unfolding gbc1_def using Cons.prems(2) by (rule sorted_map_put)
    then show ?thesis by (rule Cons.IH[OF run])
  qed
qed

lemma buildContractions_keys:
  assumes "buildContractions P cs (gnc, gbc, maxc) = Inr (gnc', gbc', maxc')"
  shows "c \<in> fst ` set gbc' \<longleftrightarrow>
     c \<in> fst ` set gbc \<or> (\<exists>e \<in> set cs. snd e = c \<and> c \<noteq> P)"
  using assms
proof (induction cs arbitrary: gnc gbc maxc)
  case Nil
  then show ?case by simp
next
  case (Cons x cs)
  obtain g c0 where x: "x = (g, c0)" by (cases x)
  show ?case
  proof (cases "c0 = P")
    case True
    then have run: "buildContractions P cs (gnc, gbc, maxc) = Inr (gnc', gbc', maxc')"
      using Cons.prems(1) unfolding x buildContractions_Cons_Inr by simp
    show ?thesis using Cons.IH[OF run] True by (simp add: x; blast?)
  next
    case False
    define gbc1 where "gbc1 = map_put gbc c0 (maskFor gbc c0 OR groupBit g)"
    define maxc1 where "maxc1 = (if map_find gbc c0 = None \<and> c0 > maxc then c0 else maxc)"
    have run: "buildContractions P cs (gnc - groupBit g, gbc1, maxc1) = Inr (gnc', gbc', maxc')"
      using Cons.prems(1) False unfolding x buildContractions_Cons_Inr gbc1_def maxc1_def
      by simp
    have "c \<in> fst ` set gbc' \<longleftrightarrow>
          c \<in> insert c0 (fst ` set gbc) \<or> (\<exists>e \<in> set cs. snd e = c \<and> c \<noteq> P)"
      using Cons.IH[OF run] by (simp only: gbc1_def keys_map_put)
    then show ?thesis using False by (simp add: x; blast?)
  qed
qed

lemma buildContractions_masks:
  assumes "buildContractions P cs (gnc, gbc, maxc) = Inr (gnc', gbc', maxc')"
  shows "bit (maskFor gbc' c) n \<longleftrightarrow>
        bit (maskFor gbc c) n \<or> (\<exists>e \<in> set cs. snd e = c \<and> c \<noteq> P \<and> nat (fst e) = n)"
  using assms
proof (induction cs arbitrary: gnc gbc maxc)
  case Nil
  then show ?case by simp
next
  case (Cons x cs)
  obtain g c0 where x: "x = (g, c0)" by (cases x)
  have vx: "validEntry P (g, c0)"
    using buildContractions_valid[OF Cons.prems(1)] by (simp add: x)
  have v: "0 \<le> g" "g \<le> 31" using vx by (simp_all add: validEntry_def)
  show ?case
  proof (cases "c0 = P")
    case True
    then have run: "buildContractions P cs (gnc, gbc, maxc) = Inr (gnc', gbc', maxc')"
      using Cons.prems(1) unfolding x buildContractions_Cons_Inr by simp
    show ?thesis using Cons.IH[OF run] True by (simp add: x; blast?)
  next
    case False
    define gbc1 where "gbc1 = map_put gbc c0 (maskFor gbc c0 OR groupBit g)"
    define maxc1 where "maxc1 = (if map_find gbc c0 = None \<and> c0 > maxc then c0 else maxc)"
    have run: "buildContractions P cs (gnc - groupBit g, gbc1, maxc1) = Inr (gnc', gbc', maxc')"
      using Cons.prems(1) False unfolding x buildContractions_Cons_Inr gbc1_def maxc1_def
      by simp
    have IH: "bit (maskFor gbc' c) n \<longleftrightarrow>
        bit (maskFor gbc1 c) n \<or> (\<exists>e \<in> set cs. snd e = c \<and> c \<noteq> P \<and> nat (fst e) = n)"
      by (rule Cons.IH[OF run])
    have "bit (maskFor gbc1 c) n \<longleftrightarrow> bit (maskFor gbc c) n \<or> (c0 = c \<and> nat g = n)"
      using v by (auto simp: gbc1_def maskFor_map_put bit_or_iff bit_groupBit)
    then show ?thesis using False IH by (simp add: x; blast?)
  qed
qed

lemma sorted_keys_maskFor:
  assumes s: "sorted_wrt (<) (map fst m)" and mem: "(c, v) \<in> set m"
  shows "maskFor m c = v"
proof -
  have "distinct (map fst m)" using s by (simp add: strict_sorted_iff)
  then have "map_of m c = Some v" using mem by simp
  then show ?thesis by (simp add: maskFor_def map_find_def)
qed

lemma buildContractions_skip:
  "0 \<le> g \<Longrightarrow> g \<le> 31 \<Longrightarrow> 0 \<le> P \<Longrightarrow>
   buildContractions P (cs1 @ (g, P) # cs2) st = buildContractions P (cs1 @ cs2) st"
proof (induction cs1 arbitrary: st)
  case Nil
  obtain gnc gbc maxc where st: "st = (gnc, gbc, maxc)" by (cases st)
  show ?case using Nil by (simp add: st contractionStep.simps)
next
  case (Cons x cs1)
  show ?case using Cons by (simp split: sum.split)
qed


lemma contractionStep_invalid:
  "\<not> validEntry P x \<Longrightarrow>
   contractionStep P x st = Inl (if fst x < 0 \<or> 31 < fst x then groupError else copiesError)"
  unfolding contractionStep_Inl by (auto simp: validEntry_def)

lemma buildContractions_Inl_iff:
  "(\<exists>e. buildContractions P cs st = Inl e) \<longleftrightarrow> (\<exists>x \<in> set cs. \<not> validEntry P x)"
proof (induction cs arbitrary: st)
  case Nil
  then show ?case by simp
next
  case (Cons x cs)
  obtain g c where x: "x = (g, c)" by (cases x)
  obtain gnc gbc maxc where st: "st = (gnc, gbc, maxc)" by (cases st)
  show ?case
  proof (cases "validEntry P x")
    case True
    then obtain st1 where "contractionStep P x st = Inr st1"
      unfolding x st contractionStep_Inr by simp
    then show ?thesis using True Cons.IH[of st1] by simp
  next
    case False
    from contractionStep_invalid[OF this, of st]
    show ?thesis using False by auto
  qed
qed

lemma buildContractions_Inl_kind:
  "buildContractions P cs st = Inl e \<Longrightarrow>
     (e = groupError \<and> (\<exists>x \<in> set cs. fst x < 0 \<or> 31 < fst x)) \<or>
     (e = copiesError \<and> (\<exists>x \<in> set cs. snd x < 0 \<or> P < snd x))"
proof (induction cs arbitrary: st)
  case Nil
  then show ?case by simp
next
  case (Cons x cs)
  show ?case
  proof (cases "contractionStep P x st")
    case (Inl e')
    then have "e' = e" using Cons.prems by simp
    then show ?thesis using Inl unfolding contractionStep_Inl
      by (simp split: if_splits; blast?)
  next
    case (Inr st1)
    then have "buildContractions P cs st1 = Inl e" using Cons.prems by simp
    from Cons.IH[OF this] show ?thesis by (simp; blast?)
  qed
qed

lemma buildContractions_first_bad:
  "find (\<lambda>x. \<not> validEntry P x) cs = Some b \<Longrightarrow>
   buildContractions P cs st =
     Inl (if fst b < 0 \<or> 31 < fst b then groupError else copiesError)"
proof (induction cs arbitrary: st)
  case Nil
  then show ?case by simp
next
  case (Cons x cs)
  obtain g c where x: "x = (g, c)" by (cases x)
  obtain gnc gbc maxc where st: "st = (gnc, gbc, maxc)" by (cases st)
  show ?case
  proof (cases "validEntry P x")
    case True
    then obtain st1 where s1: "contractionStep P x st = Inr st1"
      unfolding x st contractionStep_Inr by simp
    have "find (\<lambda>x. \<not> validEntry P x) cs = Some b" using Cons.prems True by simp
    from Cons.IH[OF this] show ?thesis using s1 by simp
  next
    case False
    then have b: "b = x" using Cons.prems by simp
    from contractionStep_invalid[OF False, of st]
    show ?thesis by (simp add: b)
  qed
qed

lemma initialize_Inl:
  "0 \<le> getNumCopies integ \<Longrightarrow>
   initialize k sys integ = Inl e \<longleftrightarrow>
   buildContractions (getNumCopies integ) (getContractions integ) (- 1, groupsByCopies k, 0) = Inl e"
  by (simp add: initialize_def Let_def split: sum.split prod.split)

lemma initialize_Inr:
  "initialize k sys integ = Inr k' \<Longrightarrow>
   \<exists>gnc gbc maxc.
     buildContractions (getNumCopies integ) (getContractions integ) (- 1, groupsByCopies k, 0)
       = Inr (gnc, gbc, maxc) \<and>
     groupsNotContracted k' = gnc AND getIntegrationForceGroups integ \<and>
     groupsByCopies k' = gbc"
  by (auto simp: initialize_def Let_def split: sum.splits prod.splits if_splits)

text \<open>
  Claim C8.  For a number of copies \<open>P \<ge> 0\<close>, \<open>initialize\<close> raises a configuration error
  if and only if some contraction entry has a force group outside \<open>[0, 31]\<close> or a copy
  count outside \<open>[0, P]\<close>.  The error is the force-group message or the copy-count
  message, each only when an entry of that kind exists, and it is decided by the first
  offending entry in the map's iteration order: the force-group message when that
  entry's group is out of range, the copy-count message otherwise.  When no entry
  offends, \<open>initialize\<close> returns a kernel.
\<close>

theorem initialize_configuration_error:
  assumes "0 \<le> getNumCopies integ"
  shows "((\<exists>e. initialize k sys integ = Inl e) \<longleftrightarrow>
      (\<exists>x \<in> set (getContractions integ).
         fst x < 0 \<or> 31 < fst x \<or> snd x < 0 \<or> getNumCopies integ < snd x)) \<and>
   (\<forall>e. initialize k sys integ = Inl e \<longrightarrow>
      (e = groupError \<and> (\<exists>x \<in> set (getContractions integ). fst x < 0 \<or> 31 < fst x)) \<or>
      (e = copiesError \<and>
         (\<exists>x \<in> set (getContractions integ). snd x < 0 \<or> getNumCopies integ < snd x))) \<and>
   (\<forall>b. find (\<lambda>x. \<not> validEntry (getNumCopies integ) x) (getContractions integ) = Some b \<longrightarrow>
      initialize k sys integ =
        Inl (if fst b < 0 \<or> 31 < fst b then groupError else copiesError)) \<and>
   ((\<forall>x \<in> set (getContractions integ). validEntry (getNumCopies integ) x) \<longrightarrow>
      (\<exists>k'. initialize k sys integ = Inr k'))"
proof (intro conjI allI impI)
  have iff: "(\<exists>e. initialize k sys integ = Inl e) \<longleftrightarrow>
      (\<exists>x \<in> set (getContractions integ). \<not> validEntry (getNumCopies integ) x)"
    unfolding initialize_Inl[OF assms] by (rule buildContractions_Inl_iff)
  then show "(\<exists>e. initialize k sys integ = Inl e) \<longleftrightarrow>
      (\<exists>x \<in> set (getContractions integ).
         fst x < 0 \<or> 31 < fst x \<or> snd x < 0 \<or> getNumCopies integ < snd x)"
    by (simp add: validEntry_def not_le de_Morgan_conj)
  assume "\<forall>x \<in> set (getContractions integ). validEntry (getNumCopies integ) x"
  then have "\<not> (\<exists>e. initialize k sys integ = Inl e)" unfolding iff by blast
  then show "\<exists>k'. initialize k sys integ = Inr k'"
    by (cases "initialize k sys integ") simp_all
next
  fix e assume "initialize k sys integ = Inl e"
  then show "(e = groupError \<and> (\<exists>x \<in> set (getContractions integ). fst x < 0 \<or> 31 < fst x)) \<or>
      (e = copiesError \<and>
         (\<exists>x \<in> set (getContractions integ). snd x < 0 \<or> getNumCopies integ < snd x))"
    unfolding initialize_Inl[OF assms] by (rule buildContractions_Inl_kind)
next
  fix b assume "find (\<lambda>x. \<not> validEntry (getNumCopies integ) x) (getContractions integ) = Some b"
  from buildContractions_first_bad[OF this]
  show "initialize k sys integ =
        Inl (if fst b < 0 \<or> 31 < fst b then groupError else copiesError)"
    unfolding initialize_Inl[OF assms] by simp
qed

theorem initialize_configuration_error_witness:
  "initialize newKernel \<lparr>masses = [1]\<rparr>
     \<lparr>getNumCopies = 4, getContractions = [(0, 2), (32, 2)], getIntegrationForceGroups = 3,
      getStepSize = 1, getTemperature = 300, getFriction = 1, getApplyThermostat = True,
      getUseOpenPath = False\<rparr> = Inl groupError \<and>
   initialize newKernel \<lparr>masses = [1]\<rparr>
     \<lparr>getNumCopies = 4, getContractions = [(0, 2), (1, 7), (32, 2)],
      getIntegrationForceGroups = 3,
      getStepSize = 1, getTemperature = 300, getFriction = 1, getApplyThermostat = True,
      getUseOpenPath = False\<rparr> = Inl copiesError \<and>
   (\<exists>k'. initialize newKernel \<lparr>masses = [1]\<rparr>
     \<lparr>getNumCopies = 4, getContractions = [(0, 2), (1, 4), (31, 0)],
      getIntegrationForceGroups = 3,
      getStepSize = 1, getTemperature = 300, getFriction = 1, getApplyThermostat = True,
      getUseOpenPath = False\<rparr> = Inr k')"
  using initialize_configuration_error[of
     "\<lparr>getNumCopies = 4, getContractions = [(0, 2), (32, 2)], getIntegrationForceGroups = 3,
      getStepSize = 1, getTemperature = 300, getFriction = 1, getApplyThermostat = True,
      getUseOpenPath = False\<rparr>" newKernel "\<lparr>masses = [1]\<rparr>"]
    initialize_configuration_error[of
     "\<lparr>getNumCopies = 4, getContractions = [(0, 2), (1, 7), (32, 2)],
      getIntegrationForceGroups = 3,
      getStepSize = 1, getTemperature = 300, getFriction = 1, getApplyThermostat = True,
      getUseOpenPath = False\<rparr>" newKernel "\<lparr>masses = [1]\<rparr>"]
    initialize_configuration_error[of
     "\<lparr>getNumCopies = 4, getContractions = [(0, 2), (1, 4), (31, 0)],
      getIntegrationForceGroups = 3,
      getStepSize = 1, getTemperature = 300, getFriction = 1, getApplyThermostat = True,
      getUseOpenPath = False\<rparr>" newKernel "\<lparr>masses = [1]\<rparr>"]
  by (simp add: validEntry_def)


lemma word32_and_zeroI:
  "(\<And>n. \<not> (bit a n \<and> bit b n)) \<Longrightarrow> (a::32 word) AND b = 0"
  by (rule bit_eqI) (simp add: bit_and_iff)

text \<open>
  Claim C5.  After \<open>initialize\<close> succeeds on a kernel whose \<open>groupsByCopies\<close> was empty
  (and \<open>contractions\<close>, being a map, has one entry per force group):
  \<open>(groupsNotContracted OR union of all contraction masks) AND integrationGroups\<close>
  equals \<open>integrationGroups\<close>; \<open>groupsNotContracted\<close> is disjoint from every
  contraction mask; the masks stored for distinct copy counts are pairwise disjoint;
  and every copy count has one mask.
\<close>

theorem initialize_groups_partition:
  assumes init: "initialize k sys integ = Inr k'"
    and fresh: "groupsByCopies k = []"
    and keys: "distinct (map fst (getContractions integ))"
  shows "(groupsNotContracted k' OR unionMasks (map snd (groupsByCopies k')))
           AND getIntegrationForceGroups integ = getIntegrationForceGroups integ \<and>
         (\<forall>cm \<in> set (groupsByCopies k'). groupsNotContracted k' AND snd cm = 0) \<and>
         (\<forall>cm1 \<in> set (groupsByCopies k'). \<forall>cm2 \<in> set (groupsByCopies k').
            fst cm1 \<noteq> fst cm2 \<longrightarrow> snd cm1 AND snd cm2 = 0) \<and>
         distinct (map fst (groupsByCopies k'))"
proof -
  define P where "P = getNumCopies integ"
  define cs where "cs = getContractions integ"
  define ig where "ig = getIntegrationForceGroups integ"
  obtain gnc gbc maxc where
    run: "buildContractions P cs (- 1, [], 0) = Inr (gnc, gbc, maxc)" and
    gnc': "groupsNotContracted k' = gnc AND ig" and
    gbc': "groupsByCopies k' = gbc"
    using initialize_Inr[OF init] unfolding fresh P_def cs_def ig_def by blast
  have dcs: "distinct (map fst cs)" using keys by (simp add: cs_def)
  have valid: "\<And>e. e \<in> set cs \<Longrightarrow> validEntry P e"
    using buildContractions_valid[OF run] .
  have gncbit: "bit gnc n \<longleftrightarrow> n < 32 \<and> \<not> (\<exists>e \<in> set cs. snd e \<noteq> P \<and> nat (fst e) = n)" for n
  proof -
    have pre: "\<forall>e \<in> set cs. bit (- 1 :: 32 word) (nat (fst e))"
    proof
      fix e assume "e \<in> set cs"
      from valid[OF this] show "bit (- 1 :: 32 word) (nat (fst e))"
        by (simp add: validEntry_def possible_bit_word) linarith
    qed
    from buildContractions_gnc[OF run _ pre, of n] keys
    show ?thesis by (simp add: cs_def possible_bit_word)
  qed
  have sorted: "sorted_wrt (<) (map fst gbc)"
    using buildContractions_sorted[OF run] by simp
  then have dist: "distinct (map fst gbc)" by (simp add: strict_sorted_iff)
  have maskbit: "bit m n \<longleftrightarrow> (\<exists>e \<in> set cs. snd e = c \<and> c \<noteq> P \<and> nat (fst e) = n)"
    if "(c, m) \<in> set gbc" for c m n
  proof -
    have "maskFor gbc c = m" using sorted that by (rule sorted_keys_maskFor)
    then show ?thesis
      using buildContractions_masks[OF run, of c n] by (simp add: maskFor_def map_find_def)
  qed
  have key: "c \<in> fst ` set gbc \<longleftrightarrow> (\<exists>e \<in> set cs. snd e = c \<and> c \<noteq> P)" for c
    using buildContractions_keys[OF run, of c] by simp
  have 1: "(gnc AND ig OR unionMasks (map snd gbc)) AND ig = ig"
  proof (rule bit_eqI)
    fix n assume "possible_bit TYPE(32 word) n"
    then have n: "n < 32" by (simp add: possible_bit_word)
    show "bit ((gnc AND ig OR unionMasks (map snd gbc)) AND ig) n = bit ig n"
    proof (cases "\<exists>e \<in> set cs. snd e \<noteq> P \<and> nat (fst e) = n")
      case True
      then obtain e where e: "e \<in> set cs" "snd e \<noteq> P" "nat (fst e) = n" by blast
      then have "snd e \<in> fst ` set gbc" unfolding key by blast
      then obtain m where m: "(snd e, m) \<in> set gbc" by force
      have "bit m n" unfolding maskbit[OF m] using e by blast
      then have "bit (unionMasks (map snd gbc)) n"
        unfolding bit_unionMasks using m by force
      then show ?thesis by (simp add: bit_and_iff bit_or_iff)
    next
      case False
      then have "bit gnc n" using n by (simp add: gncbit)
      then show ?thesis by (auto simp: bit_and_iff bit_or_iff)
    qed
  qed
  have 2: "(gnc AND ig) AND m = 0" if "(c, m) \<in> set gbc" for c m
  proof (rule word32_and_zeroI)
    fix n
    show "\<not> (bit (gnc AND ig) n \<and> bit m n)"
      unfolding maskbit[OF that] bit_and_iff gncbit by blast
  qed
  have 3: "m1 AND m2 = 0"
    if m1: "(c1, m1) \<in> set gbc" and m2: "(c2, m2) \<in> set gbc" and ne: "c1 \<noteq> c2"
    for c1 m1 c2 m2
  proof (rule word32_and_zeroI)
    fix n
    show "\<not> (bit m1 n \<and> bit m2 n)"
    proof
      assume "bit m1 n \<and> bit m2 n"
      then obtain e1 e2 where
        e1: "e1 \<in> set cs" "snd e1 = c1" "nat (fst e1) = n" and
        e2: "e2 \<in> set cs" "snd e2 = c2" "nat (fst e2) = n"
        unfolding maskbit[OF m1] maskbit[OF m2] by blast
      have "0 \<le> fst e1" "0 \<le> fst e2"
        using valid[OF e1(1)] valid[OF e2(1)] by (simp_all add: validEntry_def)
      then have f: "fst e2 = fst e1" using e1(3) e2(3) by linarith
      have "(fst e1, snd e1) \<in> set cs" using e1(1) by simp
      moreover have "(fst e1, snd e2) \<in> set cs" using e2(1) unfolding f[symmetric] by simp
      ultimately have "snd e1 = snd e2"
        using dcs by (metis eq_key_imp_eq_value)
      then show False using e1(2) e2(2) ne by simp
    qed
  qed
  show ?thesis
    unfolding gnc' gbc' ig_def[symmetric]
    using 1 2 3 dist by (simp add: split_paired_all)
qed


lemma scenario_initialize:
  "initialize newKernel \<lparr>masses = [1]\<rparr>
     \<lparr>getNumCopies = 8, getContractions = [(1, 4), (2, 4), (3, 2), (5, 8)],
      getIntegrationForceGroups = 15, getStepSize = 1, getTemperature = 300, getFriction = 1,
      getApplyThermostat = True, getUseOpenPath = False\<rparr> =
   Inr \<lparr>positions = replicate 8 [zero3], velocities = replicate 8 [zero3],
        forces = replicate 8 [zero3], contractedPositions = replicate 4 [zero3],
        contractedForces = replicate 4 [zero3], groupsNotContracted = 1,
        groupsByCopies = [(2, 8), (4, 6)]\<rparr>"
  by (simp add: initialize_def newKernel_def contractionStep.simps map_find_def groupBit_def
      resize_def getNumParticles_def numeral_eq_Suc)

theorem initialize_groups_partition_witness:
  "\<exists>k'. initialize newKernel \<lparr>masses = [1]\<rparr>
     \<lparr>getNumCopies = 8, getContractions = [(1, 4), (2, 4), (3, 2), (5, 8)],
      getIntegrationForceGroups = 15, getStepSize = 1, getTemperature = 300, getFriction = 1,
      getApplyThermostat = True, getUseOpenPath = False\<rparr> = Inr k' \<and>
    groupsNotContracted k' = 1 \<and> groupsByCopies k' = [(2, 8), (4, 6)] \<and>
    (groupsNotContracted k' OR unionMasks (map snd (groupsByCopies k'))) AND 15 = 15 \<and>
    groupsNotContracted k' AND 8 = 0 \<and> groupsNotContracted k' AND 6 = 0 \<and>
    (8 :: 32 word) AND 6 = 0"
proof -
  have fresh: "groupsByCopies newKernel = []" by (simp add: newKernel_def)
  note p = initialize_groups_partition[OF scenario_initialize fresh]
  show ?thesis unfolding scenario_initialize using p by simp
qed

text \<open>
  Claim C10, as amended.  A contraction entry whose force group lies in \<open>[0, 31]\<close> and
  whose copy count equals the total number of copies \<open>P\<close> is ignored: \<open>initialize\<close>
  returns exactly what it returns without the entry (the same error, or the same
  kernel: the same \<open>groupsNotContracted\<close>, \<open>groupsByCopies\<close> and workspace sizes).
\<close>

theorem initialize_ignores_full_copies:
  assumes "0 \<le> g" and "g \<le> 31" and "0 \<le> getNumCopies integ"
    and "getContractions integ = cs1 @ (g, getNumCopies integ) # cs2"
  shows "initialize k sys integ = initialize k sys (integ\<lparr>getContractions := cs1 @ cs2\<rparr>)"
  using assms buildContractions_skip[of g "getNumCopies integ" cs1 cs2]
  by (simp add: initialize_def Let_def split: sum.split prod.split)

text \<open>
  An entry with copy count \<open>P\<close> is still checked for its force group: with group 32
  \<open>initialize\<close> raises the force-group error, though it succeeds without the entry.
\<close>

theorem initialize_full_copies_bad_group:
  "initialize newKernel \<lparr>masses = [1]\<rparr>
     \<lparr>getNumCopies = 8, getContractions = [(32, 8)],
      getIntegrationForceGroups = 15, getStepSize = 1, getTemperature = 300, getFriction = 1,
      getApplyThermostat = True, getUseOpenPath = False\<rparr> = Inl groupError \<and>
   (\<exists>k'. initialize newKernel \<lparr>masses = [1]\<rparr>
     \<lparr>getNumCopies = 8, getContractions = [],
      getIntegrationForceGroups = 15, getStepSize = 1, getTemperature = 300, getFriction = 1,
      getApplyThermostat = True, getUseOpenPath = False\<rparr> = Inr k')"
  by (simp add: initialize_def newKernel_def contractionStep.simps Let_def)

theorem initialize_ignores_full_copies_witness:
  "initialize newKernel \<lparr>masses = [1]\<rparr>
     \<lparr>getNumCopies = 8, getContractions = [(1, 4), (2, 4), (3, 2), (5, 8)],
      getIntegrationForceGroups = 15, getStepSize = 1, getTemperature = 300, getFriction = 1,
      getApplyThermostat = True, getUseOpenPath = False\<rparr> =
   initialize newKernel \<lparr>masses = [1]\<rparr>
     \<lparr>getNumCopies = 8, getContractions = [(1, 4), (2, 4), (3, 2)],
      getIntegrationForceGroups = 15, getStepSize = 1, getTemperature = 300, getFriction = 1,
      getApplyThermostat = True, getUseOpenPath = False\<rparr>"
  using initialize_ignores_full_copies[of 5 "\<lparr>getNumCopies = 8, getContractions = [(1, 4), (2, 4), (3, 2), (5, 8)],
      getIntegrationForceGroups = 15, getStepSize = 1, getTemperature = 300, getFriction = 1,
      getApplyThermostat = True, getUseOpenPath = False\<rparr>" "[(1, 4), (2, 4), (3, 2)]" "[]"
      newKernel "\<lparr>masses = [1]\<rparr>"]
  by simp


section \<open>Properties of the open-path force computation\<close>

lemma firstHalfOpen_groupsByCopies:
  "groupsByCopies (kern (firstHalfOpen ext sys integ n m w)) = groupsByCopies (kern w)"
  by (simp add: firstHalfOpen_def Let_def split: prod.split)

lemma fold_frame:
  "(\<And>x s. x \<in> set xs \<Longrightarrow> proj (step x s) = proj s) \<Longrightarrow> proj (fold step xs s) = proj s"
  by (induction xs arbitrary: s) simp_all

lemma evaluateBead_beadEvaluated:
  "evaluateBead ext i w = Done (beadEvaluated ext i w) \<or>
   (\<not> keepsBox ext \<and> (\<exists>w'. evaluateBead ext i w = Thrown barostatError w'))"
proof (cases "periodicBox (computeVirtualSites ext
      ((ctx w)\<lparr>ctxPositions := positions (kern w) ! i, ctxVelocities := velocities (kern w) ! i\<rparr>))
    = periodicBox (updateContextState ext (computeVirtualSites ext
      ((ctx w)\<lparr>ctxPositions := positions (kern w) ! i, ctxVelocities := velocities (kern w) ! i\<rparr>)))")
  case True
  then show ?thesis by (simp add: evaluateBead_def beadEvaluated_def Let_def)
next
  case False
  then have "\<not> keepsBox ext" unfolding keepsBox_def by metis
  then show ?thesis using False by (auto simp: evaluateBead_def Let_def prod_eq_iff)
qed

lemma forEach_beadEvaluated:
  "forEach (evaluateBead ext) js w = Done (fold (beadEvaluated ext) js w) \<or>
   (\<not> keepsBox ext \<and> (\<exists>w'. forEach (evaluateBead ext) js w = Thrown barostatError w'))"
proof (induction js arbitrary: w)
  case Nil
  then show ?case by simp
next
  case (Cons j js)
  from evaluateBead_beadEvaluated[of ext j w] show ?case
  proof
    assume e: "evaluateBead ext j w = Done (beadEvaluated ext j w)"
    from Cons.IH[of "beadEvaluated ext j w"] show ?thesis by (simp add: e)
  next
    assume "\<not> keepsBox ext \<and> (\<exists>w'. evaluateBead ext j w = Thrown barostatError w')"
    then show ?thesis by auto
  qed
qed

lemma beadEvaluated_groupsByCopies:
  "groupsByCopies (kern (fold (beadEvaluated ext) js w)) = groupsByCopies (kern w)"
  by (rule fold_frame) (simp add: beadEvaluated_def Let_def)

lemma computeForcesOpenPath_gathered:
  "computeForcesOpenPath ext w =
     (if groupsByCopies (kern w) = [] then Done (forcesGathered ext w)
      else Thrown lepigsError (forcesGathered ext w)) \<or>
   (\<not> keepsBox ext \<and> (\<exists>w'. computeForcesOpenPath ext w = Thrown barostatError w'))"
proof -
  from forEach_beadEvaluated[of ext "[0..<copiesOf (kern w)]" w] show ?thesis
  proof
    assume f: "forEach (evaluateBead ext) [0..<copiesOf (kern w)] w =
        Done (fold (beadEvaluated ext) [0..<copiesOf (kern w)] w)"
    have "computeForcesOpenPath ext w =
       (if groupsByCopies (kern w) = [] then Done (forcesGathered ext w)
        else Thrown lepigsError (forcesGathered ext w))"
      unfolding computeForcesOpenPath_def f forcesGathered_def Let_def
      by (simp add: beadEvaluated_groupsByCopies split: list.split)
    then show ?thesis by simp
  next
    assume "\<not> keepsBox ext \<and>
      (\<exists>w'. forEach (evaluateBead ext) [0..<copiesOf (kern w)] w = Thrown barostatError w')"
    then show ?thesis by (auto simp: computeForcesOpenPath_def)
  qed
qed

lemma forcesGathered_groupsByCopies:
  "groupsByCopies (kern (forcesGathered ext w)) = groupsByCopies (kern w)"
  by (simp add: forcesGathered_def Let_def beadEvaluated_groupsByCopies)

lemma execute_open_path_thrown_state:
  assumes "getUseOpenPath integ"
  shows "(groupsByCopies (kern w) \<noteq> [] \<longrightarrow>
           execute ext sys integ forcesAreValid w =
             Thrown lepigsError
               (forcesGathered ext
                  (if forcesAreValid
                   then firstHalfOpen ext sys integ (copiesOf (kern w)) (particlesOf (kern w)) w
                   else w)) \<or>
           (\<not> keepsBox ext \<and>
              (\<exists>w'. execute ext sys integ forcesAreValid w = Thrown barostatError w'))) \<and>
         (groupsByCopies (kern w) = [] \<longrightarrow>
           (\<exists>w'. execute ext sys integ forcesAreValid w = Done w') \<or>
           (\<not> keepsBox ext \<and>
              (\<exists>w'. execute ext sys integ forcesAreValid w = Thrown barostatError w')))"
proof -
  define n where "n = copiesOf (kern w)"
  define m where "m = particlesOf (kern w)"
  have ex: "execute ext sys integ forcesAreValid w =
     (case (if \<not> forcesAreValid then computeForcesOpenPath ext w else Done w) of
           Thrown e w' \<Rightarrow> Thrown e w'
         | Done w1 \<Rightarrow>
             (case computeForcesOpenPath ext (firstHalfOpen ext sys integ n m w1) of
                Thrown e w' \<Rightarrow> Thrown e w'
              | Done w2 \<Rightarrow> Done (secondHalfOpen ext sys integ n m w2)))"
    unfolding execute_def executeOpenPath_def Let_def n_def m_def using assms by simp
  have second: "computeForcesOpenPath ext (firstHalfOpen ext sys integ n m w1) =
       (if groupsByCopies (kern w1) = []
        then Done (forcesGathered ext (firstHalfOpen ext sys integ n m w1))
        else Thrown lepigsError (forcesGathered ext (firstHalfOpen ext sys integ n m w1))) \<or>
    (\<not> keepsBox ext \<and>
      (\<exists>w'. computeForcesOpenPath ext (firstHalfOpen ext sys integ n m w1) = Thrown barostatError w'))"
    for w1
    using computeForcesOpenPath_gathered[of ext "firstHalfOpen ext sys integ n m w1"]
    unfolding firstHalfOpen_groupsByCopies .
  show ?thesis
  proof (cases forcesAreValid)
    case True
    then have e: "execute ext sys integ forcesAreValid w =
       (case computeForcesOpenPath ext (firstHalfOpen ext sys integ n m w) of
                Thrown e w' \<Rightarrow> Thrown e w'
              | Done w2 \<Rightarrow> Done (secondHalfOpen ext sys integ n m w2))"
      unfolding ex by simp
    from second[of w] show ?thesis
    proof
      assume "computeForcesOpenPath ext (firstHalfOpen ext sys integ n m w) =
       (if groupsByCopies (kern w) = []
        then Done (forcesGathered ext (firstHalfOpen ext sys integ n m w))
        else Thrown lepigsError (forcesGathered ext (firstHalfOpen ext sys integ n m w)))"
      then show ?thesis unfolding e n_def[symmetric] m_def[symmetric] using True by simp
    next
      assume "\<not> keepsBox ext \<and>
        (\<exists>w'. computeForcesOpenPath ext (firstHalfOpen ext sys integ n m w) = Thrown barostatError w')"
      then show ?thesis unfolding e by auto
    qed
  next
    case False
    then have e: "execute ext sys integ forcesAreValid w =
       (case computeForcesOpenPath ext w of
           Thrown e w' \<Rightarrow> Thrown e w'
         | Done w1 \<Rightarrow>
             (case computeForcesOpenPath ext (firstHalfOpen ext sys integ n m w1) of
                Thrown e w' \<Rightarrow> Thrown e w'
              | Done w2 \<Rightarrow> Done (secondHalfOpen ext sys integ n m w2)))"
      unfolding ex by simp
    from computeForcesOpenPath_gathered[of ext w] show ?thesis
    proof
      assume c: "computeForcesOpenPath ext w =
        (if groupsByCopies (kern w) = [] then Done (forcesGathered ext w)
         else Thrown lepigsError (forcesGathered ext w))"
      show ?thesis
      proof (cases "groupsByCopies (kern w) = []")
        case False
        then show ?thesis unfolding e c using \<open>\<not> forcesAreValid\<close> by simp
      next
        case True
        then have g: "groupsByCopies (kern (forcesGathered ext w)) = []"
          by (simp add: forcesGathered_groupsByCopies)
        from second[of "forcesGathered ext w"] show ?thesis
          unfolding e c g using True by auto
      qed
    next
      assume "\<not> keepsBox ext \<and> (\<exists>w'. computeForcesOpenPath ext w = Thrown barostatError w')"
      then show ?thesis unfolding e by auto
    qed
  qed
qed

text \<open>
  Claim C4, as amended.  With the open path and a non-empty contraction schedule every
  call of \<open>execute\<close> throws, and not before the state is changed: the exception is
  \<^verbatim>\<open>Contractions are not implemented for LePIGS!\<close>, and it leaves behind the state in
  which the pass over all copies has stored the positions, velocities and forces of
  every copy and the forces of the first and the last copy are halved (\<open>forcesGathered\<close>),
  starting from the state on entry when the forces were not valid, and from the state
  after thermostat, velocity update and free chain when they were (there for a physical
  configuration, whose arithmetic is that of the real numbers); unless a state update
  of the engine changed the periodic box first (then it is the barostat exception).
  With an empty schedule the open-path step never throws the contraction exception: it
  completes, again unless the engine changes the box.
\<close>

theorem execute_open_path_contractions:
  assumes "getUseOpenPath integ"
  shows "(groupsByCopies (kern w) \<noteq> [] \<longrightarrow>
           ((\<exists>w'. execute ext sys integ forcesAreValid w = Thrown lepigsError w') \<and>
            (\<not> forcesAreValid \<longrightarrow>
               execute ext sys integ forcesAreValid w =
                 Thrown lepigsError (forcesGathered ext w)) \<and>
            (forcesAreValid \<and> physical ext sys integ \<longrightarrow>
               execute ext sys integ forcesAreValid w =
                 Thrown lepigsError
                   (forcesGathered ext
                      (firstHalfOpen ext sys integ (copiesOf (kern w)) (particlesOf (kern w)) w)))) \<or>
           (\<not> keepsBox ext \<and>
              (\<exists>w'. execute ext sys integ forcesAreValid w = Thrown barostatError w'))) \<and>
         (groupsByCopies (kern w) = [] \<longrightarrow>
           (\<exists>w'. execute ext sys integ forcesAreValid w = Done w') \<or>
           (\<not> keepsBox ext \<and>
              (\<exists>w'. execute ext sys integ forcesAreValid w = Thrown barostatError w')))"
proof (intro conjI impI)
  assume g: "groupsByCopies (kern w) \<noteq> []"
  from execute_open_path_thrown_state[OF assms, of w ext sys forcesAreValid] g
  have "execute ext sys integ forcesAreValid w =
             Thrown lepigsError
               (forcesGathered ext
                  (if forcesAreValid
                   then firstHalfOpen ext sys integ (copiesOf (kern w)) (particlesOf (kern w)) w
                   else w)) \<or>
           (\<not> keepsBox ext \<and>
              (\<exists>w'. execute ext sys integ forcesAreValid w = Thrown barostatError w'))"
    by blast
  then show "((\<exists>w'. execute ext sys integ forcesAreValid w = Thrown lepigsError w') \<and>
            (\<not> forcesAreValid \<longrightarrow>
               execute ext sys integ forcesAreValid w =
                 Thrown lepigsError (forcesGathered ext w)) \<and>
            (forcesAreValid \<and> physical ext sys integ \<longrightarrow>
               execute ext sys integ forcesAreValid w =
                 Thrown lepigsError
                   (forcesGathered ext
                      (firstHalfOpen ext sys integ (copiesOf (kern w)) (particlesOf (kern w)) w)))) \<or>
           (\<not> keepsBox ext \<and>
              (\<exists>w'. execute ext sys integ forcesAreValid w = Thrown barostatError w'))"
    by (cases forcesAreValid) auto
next
  assume "groupsByCopies (kern w) = []"
  with execute_open_path_thrown_state[OF assms, of w ext sys forcesAreValid]
  show "(\<exists>w'. execute ext sys integ forcesAreValid w = Done w') \<or>
           (\<not> keepsBox ext \<and>
              (\<exists>w'. execute ext sys integ forcesAreValid w = Thrown barostatError w'))"
    by blast
qed

lemma keepsBox_testExternal: "keepsBox testExternal"
  by (simp add: keepsBox_def testExternal_def)

lemma firstHalfOpen_at_rest:
  "firstHalfOpen testExternal \<lparr>masses = [1]\<rparr> (testIntegrator 3 True) 3 1 (testWorld 3 gbc)
     = testWorld 3 gbc"
proof -
  have idx: "[0..<3] = [0, 1, 2::nat]" "[1..<3] = [1, 2::nat]" "[0..<1] = [0::nat]"
    by (simp_all add: upt_rec)
  have z: "replicate 3 [zero3] = [[(0, 0, 0)], [(0, 0, 0)], [(0, 0, 0)]]"
    by (simp add: numeral_3_eq_3 zero3_def)
  have rc: "readColumn [[(0, 0, 0)], [(0, 0, 0)], [(0, 0, 0)]] 0 c 3 = [0, 0, 0]" for c
    unfolding readColumn_def idx by simp
  have col: "driftColumnOpen testExternal 3 fct wn dt ([0, 0, 0], [0, 0, 0]) = ([0, 0, 0], [0, 0, 0])"
    for fct wn dt
    unfolding driftColumnOpen_def idx by (simp add: testExternal_def driftModeStepOpen_def Let_def)
  have wc: "writeColumn [[(0, 0, 0)], [(0, 0, 0)], [(0, 0, 0)]] 0 c 3 (\<lambda>k. [0, 0, 0] ! k)
      = [[(0, 0, 0)], [(0, 0, 0)], [(0, 0, 0)]]" for c
    unfolding writeColumn_def idx by (simp add: numeral_eq_Suc)
  have dc: "driftComponentOpen testExternal 3 fct wn dt 0 c
      ([[(0, 0, 0)], [(0, 0, 0)], [(0, 0, 0)]], [[(0, 0, 0)], [(0, 0, 0)], [(0, 0, 0)]])
      = ([[(0, 0, 0)], [(0, 0, 0)], [(0, 0, 0)]], [[(0, 0, 0)], [(0, 0, 0)], [(0, 0, 0)]])"
    for fct wn dt c
    unfolding driftComponentOpen_def Let_def split_conv rc col wc ..
  have d: "driftOpen testExternal \<lparr>masses = [1]\<rparr> (testIntegrator 3 True) 3 (Suc 0)
      ([[(0, 0, 0)], [(0, 0, 0)], [(0, 0, 0)]], [[(0, 0, 0)], [(0, 0, 0)], [(0, 0, 0)]])
      = ([[(0, 0, 0)], [(0, 0, 0)], [(0, 0, 0)]], [[(0, 0, 0)], [(0, 0, 0)], [(0, 0, 0)]])"
    unfolding driftOpen_def Let_def idx by (simp add: getParticleMass_def dc)
  have k: "kick \<lparr>masses = [1]\<rparr> h 3 (Suc 0) [[(0, 0, 0)], [(0, 0, 0)], [(0, 0, 0)]]
      [[(0, 0, 0)], [(0, 0, 0)], [(0, 0, 0)]] = [[(0, 0, 0)], [(0, 0, 0)], [(0, 0, 0)]]" for h
    unfolding kick_def idx by (simp add: kickParticle_def getParticleMass_def)
  have t: "thermostatOpen testExternal \<lparr>masses = [1]\<rparr> (testIntegrator 3 True) 3 (Suc 0) vr = vr" for vr
    by (simp add: thermostatOpen_def testIntegrator_def)
  show ?thesis
    unfolding firstHalfOpen_def Let_def testWorld_def z
    by (simp add: t k d)
qed

theorem execute_open_path_contractions_witness:
  "execute testExternal \<lparr>masses = [1]\<rparr> (testIntegrator 3 True) False (testWorld 3 [(1, 2)]) =
     Thrown lepigsError
       ((testWorld 3 [(1, 2)])
          \<lparr>kern := (kern (testWorld 3 [(1, 2)]))
             \<lparr>forces := [[(1, 1, 1)], [(2, 2, 2)], [(1, 1, 1)]]\<rparr>,
           ctx := testContext\<lparr>ctxForces := [(2, 2, 2)]\<rparr>\<rparr>) \<and>
   execute testExternal \<lparr>masses = [1]\<rparr> (testIntegrator 3 True) True (testWorld 3 [(1, 2)]) =
     Thrown lepigsError
       ((testWorld 3 [(1, 2)])
          \<lparr>kern := (kern (testWorld 3 [(1, 2)]))
             \<lparr>forces := [[(1, 1, 1)], [(2, 2, 2)], [(1, 1, 1)]]\<rparr>,
           ctx := testContext\<lparr>ctxForces := [(2, 2, 2)]\<rparr>\<rparr>) \<and>
   (\<exists>w'. execute testExternal \<lparr>masses = [1]\<rparr> (testIntegrator 2 True) True
            (testWorld 2 []) = Done w')"
proof -
  have g: "forcesGathered testExternal (testWorld 3 [(1, 2)]) =
      (testWorld 3 [(1, 2)])
          \<lparr>kern := (kern (testWorld 3 [(1, 2)]))
             \<lparr>forces := [[(1, 1, 1)], [(2, 2, 2)], [(1, 1, 1)]]\<rparr>,
           ctx := testContext\<lparr>ctxForces := [(2, 2, 2)]\<rparr>\<rparr>"
    by (simp add: forcesGathered_def beadEvaluated_def testExternal_def testWorld_def
        testContext_def copiesOf_def particlesOf_def halveEndpoints_def zero3_def Let_def
        numeral_3_eq_3)
  have o: "getUseOpenPath (testIntegrator n True)" for n by (simp add: testIntegrator_def)
  have gb: "groupsByCopies (kern (testWorld 3 [(1, 2)])) \<noteq> []"
    "groupsByCopies (kern (testWorld 2 [])) = []" by (simp_all add: testWorld_def)
  have ph: "physical testExternal \<lparr>masses = [1]\<rparr> (testIntegrator 3 True)"
    by (simp add: physical_def testExternal_def testIntegrator_def)
  have sz: "copiesOf (kern (testWorld 3 [(1, 2)])) = 3" "particlesOf (kern (testWorld 3 [(1, 2)])) = 1"
    by (simp_all add: copiesOf_def particlesOf_def testWorld_def numeral_3_eq_3)
  from execute_open_path_contractions[OF o[of 3], where w = "testWorld 3 [(1, 2)]" and ext = testExternal
      and sys = "\<lparr>masses = [1]\<rparr>" and forcesAreValid = False]
  have 1: "execute testExternal \<lparr>masses = [1]\<rparr> (testIntegrator 3 True) False
      (testWorld 3 [(1, 2)]) = Thrown lepigsError (forcesGathered testExternal (testWorld 3 [(1, 2)]))"
    using gb(1) keepsBox_testExternal by simp
  from execute_open_path_contractions[OF o[of 3], where w = "testWorld 3 [(1, 2)]" and ext = testExternal
      and sys = "\<lparr>masses = [1]\<rparr>" and forcesAreValid = True]
  have 2: "execute testExternal \<lparr>masses = [1]\<rparr> (testIntegrator 3 True) True
      (testWorld 3 [(1, 2)]) = Thrown lepigsError (forcesGathered testExternal (testWorld 3 [(1, 2)]))"
    using gb(1) keepsBox_testExternal ph unfolding sz firstHalfOpen_at_rest by simp
  from execute_open_path_contractions[OF o[of 2], where w = "testWorld 2 []" and ext = testExternal
      and sys = "\<lparr>masses = [1]\<rparr>" and forcesAreValid = True]
  have 3: "\<exists>w'. execute testExternal \<lparr>masses = [1]\<rparr> (testIntegrator 2 True) True
            (testWorld 2 []) = Done w'"
    using gb(2) keepsBox_testExternal by simp
  show ?thesis using 1 2 3 unfolding g by simp
qed

text \<open>
  The exception is not thrown before any state mutation: it comes from the loop at the
  end of \<open>computeForcesOpenPath\<close>, after the pass over all copies has stored new forces
  and the endpoint forces have been halved.
\<close>

theorem execute_open_path_mutates_before_throw:
  "execute testExternal \<lparr>masses = [1]\<rparr> (testIntegrator 2 True) False (testWorld 2 [(1, 2)]) =
     Thrown lepigsError
       ((testWorld 2 [(1, 2)])
          \<lparr>kern := (kern (testWorld 2 [(1, 2)]))\<lparr>forces := [[(1, 1, 1)], [(1, 1, 1)]]\<rparr>,
           ctx := testContext\<lparr>ctxForces := [(2, 2, 2)]\<rparr>\<rparr>) \<and>
   forces (kern (testWorld 2 [(1, 2)])) = [[(0, 0, 0)], [(0, 0, 0)]]"
  by (simp add: execute_def executeOpenPath_def computeForcesOpenPath_def evaluateBead_def
      testExternal_def testWorld_def testIntegrator_def testContext_def copiesOf_def
      particlesOf_def halveEndpoints_def zero3_def Let_def numeral_2_eq_2)

text \<open>
  Claim C6 at a single copy.  Bead \<open>0\<close> is also bead \<open>P - 1\<close>, so the endpoint loop
  multiplies its force twice: the engine's force \<open>(2, 2, 2)\<close> is stored as
  \<open>(1/2, 1/2, 1/2)\<close>, a factor of one quarter.
\<close>

theorem computeForcesOpenPath_single_copy:
  "computeForcesOpenPath testExternal (testWorld 1 []) =
     Done ((testWorld 1 [])
             \<lparr>kern := (kern (testWorld 1 []))\<lparr>forces := [[(1 / 2, 1 / 2, 1 / 2)]]\<rparr>,
              ctx := testContext\<lparr>ctxForces := [(2, 2, 2)]\<rparr>\<rparr>)"
  by (simp add: computeForcesOpenPath_def evaluateBead_def
      testExternal_def testWorld_def testContext_def copiesOf_def
      particlesOf_def halveEndpoints_def zero3_def Let_def)


section \<open>Particles of mass zero\<close>

lemma particleRow_update:
  assumes "j \<noteq> p"
  shows "particleRow j (a[k := (a ! k)[p := x]]) = particleRow j a"
proof -
  have "particleRow j (a[k := (a ! k)[p := x]]) = (particleRow j a)[k := (a ! k)[p := x] ! j]"
    by (simp add: particleRow_def map_update)
  also have "\<dots> = (particleRow j a)[k := a ! k ! j]" using assms by simp
  also have "\<dots> = particleRow j a"
  proof (cases "k < length a")
    case True
    then have "particleRow j a ! k = a ! k ! j" by (simp add: particleRow_def)
    then show ?thesis by (metis list_update_id)
  next
    case False
    then have "length (particleRow j a) \<le> k" by (simp add: particleRow_def)
    then show ?thesis by (rule list_update_beyond)
  qed
  finally show ?thesis .
qed

lemma particleRow_writeColumn:
  "j \<noteq> p \<Longrightarrow> particleRow j (writeColumn a p c n f) = particleRow j a"
  unfolding writeColumn_def
  by (rule fold_frame) (simp add: particleRow_update)

lemma thermostatComponent_frame:
  "j \<noteq> p \<Longrightarrow>
   particleRow j (fst (thermostatComponent n scale twown halfdt nkT c1_0 c3_0 mass p c velr))
     = particleRow j (fst velr)"
  by (simp add: thermostatComponent_def split_beta particleRow_writeColumn)

lemma thermostatComponentOpen_frame:
  "j \<noteq> p \<Longrightarrow>
   particleRow j (fst (thermostatComponentOpen ext n fct twown halfdt nkT c1_0 c3_0 mass p c velr))
     = particleRow j (fst velr)"
  by (simp add: thermostatComponentOpen_def split_beta particleRow_writeColumn)

lemma driftComponent_frame:
  "j \<noteq> p \<Longrightarrow>
   particleRow j (fst (driftComponent n scale twown dt p c pv)) = particleRow j (fst pv) \<and>
   particleRow j (snd (driftComponent n scale twown dt p c pv)) = particleRow j (snd pv)"
  by (simp add: driftComponent_def split_beta particleRow_writeColumn)

lemma driftComponentOpen_frame:
  "j \<noteq> p \<Longrightarrow>
   particleRow j (fst (driftComponentOpen ext n fct twown dt p c pv)) = particleRow j (fst pv) \<and>
   particleRow j (snd (driftComponentOpen ext n fct twown dt p c pv)) = particleRow j (snd pv)"
  by (simp add: driftComponentOpen_def split_beta particleRow_writeColumn)

lemma thermostatClosed_frame:
  assumes "getParticleMass sys j = 0"
  shows "particleRow j (fst (thermostatClosed ext sys integ n m velr)) = particleRow j (fst velr)"
proof (cases "getApplyThermostat integ")
  case False
  then show ?thesis by (simp add: thermostatClosed_def)
next
  case True
  have gen: "particleRow j (fst (fold (\<lambda>particle velr.
                  if getParticleMass sys particle = 0 then velr
                  else fold (thermostatComponent n scale twown halfdt nkT c1_0 (c3 particle)
                                (getParticleMass sys particle) particle)
                          [0..<3] velr) ps velr)) = particleRow j (fst velr)"
    for scale twown halfdt nkT c1_0 c3 ps
  proof (rule fold_frame)
    fix p s
    show "particleRow j (fst (if getParticleMass sys p = 0 then s
            else fold (thermostatComponent n scale twown halfdt nkT c1_0 (c3 p)
                   (getParticleMass sys p) p) [0..<3] s)) = particleRow j (fst s)"
    proof (cases "getParticleMass sys p = 0")
      case True
      then show ?thesis by simp
    next
      case False
      then have "j \<noteq> p" using assms by auto
      then have "particleRow j (fst (fold (thermostatComponent n scale twown halfdt nkT c1_0 (c3 p)
                   (getParticleMass sys p) p) [0..<3] s)) = particleRow j (fst s)"
        by (intro fold_frame thermostatComponent_frame)
      then show ?thesis using False by simp
    qed
  qed
  show ?thesis unfolding thermostatClosed_def Let_def if_P[OF True] by (rule gen)
qed

lemma thermostatOpen_frame:
  assumes "getParticleMass sys j = 0"
  shows "particleRow j (fst (thermostatOpen ext sys integ n m velr)) = particleRow j (fst velr)"
proof (cases "getApplyThermostat integ")
  case False
  then show ?thesis by (simp add: thermostatOpen_def)
next
  case True
  have gen: "particleRow j (fst (fold (\<lambda>particle velr.
                  if getParticleMass sys particle = 0 then velr
                  else fold (thermostatComponentOpen ext n fct twown halfdt nkT c1_0 (c3 particle)
                                (getParticleMass sys particle) particle)
                          [0..<3] velr) ps velr)) = particleRow j (fst velr)"
    for fct twown halfdt nkT c1_0 c3 ps
  proof (rule fold_frame)
    fix p s
    show "particleRow j (fst (if getParticleMass sys p = 0 then s
            else fold (thermostatComponentOpen ext n fct twown halfdt nkT c1_0 (c3 p)
                   (getParticleMass sys p) p) [0..<3] s)) = particleRow j (fst s)"
    proof (cases "getParticleMass sys p = 0")
      case True
      then show ?thesis by simp
    next
      case False
      then have "j \<noteq> p" using assms by auto
      then have "particleRow j (fst (fold (thermostatComponentOpen ext n fct twown halfdt nkT c1_0
                   (c3 p) (getParticleMass sys p) p) [0..<3] s)) = particleRow j (fst s)"
        by (intro fold_frame thermostatComponentOpen_frame)
      then show ?thesis using False by simp
    qed
  qed
  show ?thesis unfolding thermostatOpen_def Let_def if_P[OF True] by (rule gen)
qed

lemma kick_frame:
  assumes "getParticleMass sys j = 0"
  shows "particleRow j (kick sys halfdt n m frc vel) = particleRow j vel"
proof -
  have step: "particleRow j (kickParticle sys halfdt frc i p s) = particleRow j s" for i p s
  proof (cases "getParticleMass sys p = 0")
    case True
    then show ?thesis by (simp add: kickParticle_def)
  next
    case False
    then have "j \<noteq> p" using assms by auto
    then show ?thesis by (simp add: kickParticle_def particleRow_update)
  qed
  have inner: "particleRow j (fold (kickParticle sys halfdt frc i) [0..<m] s) = particleRow j s"
    for i s
    by (rule fold_frame) (rule step)
  show ?thesis unfolding kick_def by (rule fold_frame) (rule inner)
qed

lemma driftClosed_frame:
  assumes "getParticleMass sys j = 0"
  shows "particleRow j (fst (driftClosed ext sys integ n m pv)) = particleRow j (fst pv) \<and>
         particleRow j (snd (driftClosed ext sys integ n m pv)) = particleRow j (snd pv)"
proof -
  let ?proj = "\<lambda>s. (particleRow j (fst s), particleRow j (snd s))"
  have "?proj (fold (\<lambda>particle pv.
                if getParticleMass sys particle = 0 then pv
                else fold (driftComponent n scale twown dt particle) [0..<3] pv) ps pv) = ?proj pv"
    for scale twown dt ps
  proof (rule fold_frame)
    fix p s
    show "?proj (if getParticleMass sys p = 0 then s
            else fold (driftComponent n scale twown dt p) [0..<3] s) = ?proj s"
    proof (cases "getParticleMass sys p = 0")
      case True
      then show ?thesis by simp
    next
      case False
      then have "j \<noteq> p" using assms by auto
      then have "?proj (fold (driftComponent n scale twown dt p) [0..<3] s) = ?proj s"
        by (intro fold_frame) (simp add: driftComponent_frame)
      then show ?thesis using False by simp
    qed
  qed
  then show ?thesis by (simp add: driftClosed_def Let_def)
qed

lemma driftOpen_frame:
  assumes "getParticleMass sys j = 0"
  shows "particleRow j (fst (driftOpen ext sys integ n m pv)) = particleRow j (fst pv) \<and>
         particleRow j (snd (driftOpen ext sys integ n m pv)) = particleRow j (snd pv)"
proof -
  let ?proj = "\<lambda>s. (particleRow j (fst s), particleRow j (snd s))"
  have "?proj (fold (\<lambda>particle pv.
                if getParticleMass sys particle = 0 then pv
                else fold (driftComponentOpen ext n fct twown dt particle) [0..<3] pv) ps pv)
          = ?proj pv"
    for fct twown dt ps
  proof (rule fold_frame)
    fix p s
    show "?proj (if getParticleMass sys p = 0 then s
            else fold (driftComponentOpen ext n fct twown dt p) [0..<3] s) = ?proj s"
    proof (cases "getParticleMass sys p = 0")
      case True
      then show ?thesis by simp
    next
      case False
      then have "j \<noteq> p" using assms by auto
      then have "?proj (fold (driftComponentOpen ext n fct twown dt p) [0..<3] s) = ?proj s"
        by (intro fold_frame) (simp add: driftComponentOpen_frame)
      then show ?thesis using False by simp
    qed
  qed
  then show ?thesis by (simp add: driftOpen_def Let_def)
qed

text \<open>
  Claim C9.  For a particle of mass zero, the integrator's own arithmetic of a step
  (thermostat, velocity update and free-polymer evolution before the force computation;
  velocity update and thermostat after it) leaves the particle's position and velocity
  entries unchanged in every copy, in the closed and in the open path.
\<close>

theorem zero_mass_particles_untouched:
  assumes "getParticleMass sys j = 0"
  shows "particleRow j (positions (kern (firstHalfClosed ext sys integ n m w)))
           = particleRow j (positions (kern w)) \<and>
         particleRow j (velocities (kern (firstHalfClosed ext sys integ n m w)))
           = particleRow j (velocities (kern w)) \<and>
         particleRow j (positions (kern (secondHalfClosed ext sys integ n m w)))
           = particleRow j (positions (kern w)) \<and>
         particleRow j (velocities (kern (secondHalfClosed ext sys integ n m w)))
           = particleRow j (velocities (kern w)) \<and>
         particleRow j (positions (kern (firstHalfOpen ext sys integ n m w)))
           = particleRow j (positions (kern w)) \<and>
         particleRow j (velocities (kern (firstHalfOpen ext sys integ n m w)))
           = particleRow j (velocities (kern w)) \<and>
         particleRow j (positions (kern (secondHalfOpen ext sys integ n m w)))
           = particleRow j (positions (kern w)) \<and>
         particleRow j (velocities (kern (secondHalfOpen ext sys integ n m w)))
           = particleRow j (velocities (kern w))"
proof -
  note tc = thermostatClosed_frame[OF assms] and topen = thermostatOpen_frame[OF assms]
    and k = kick_frame[OF assms] and dc = driftClosed_frame[OF assms]
    and dopen = driftOpen_frame[OF assms]
  have 1: "particleRow j (positions (kern (firstHalfClosed ext sys integ n m w)))
           = particleRow j (positions (kern w))"
    using dc[of ext integ n m] by (simp add: firstHalfClosed_def Let_def split_beta)
  have 2: "particleRow j (velocities (kern (firstHalfClosed ext sys integ n m w)))
           = particleRow j (velocities (kern w))"
    using dc[of ext integ n m] k tc[of ext integ n m "(velocities (kern w), rand w)"]
    by (simp add: firstHalfClosed_def Let_def split_beta)
  have 3: "particleRow j (positions (kern (secondHalfClosed ext sys integ n m w)))
           = particleRow j (positions (kern w))"
    by (simp add: secondHalfClosed_def advanceTime_def Let_def split_beta)
  have 4: "particleRow j (velocities (kern (secondHalfClosed ext sys integ n m w)))
           = particleRow j (velocities (kern w))"
    using k tc[of ext integ n m]
    by (simp add: secondHalfClosed_def advanceTime_def Let_def split_beta)
  have 5: "particleRow j (positions (kern (firstHalfOpen ext sys integ n m w)))
           = particleRow j (positions (kern w))"
    using dopen[of ext integ n m] by (simp add: firstHalfOpen_def Let_def split_beta)
  have 6: "particleRow j (velocities (kern (firstHalfOpen ext sys integ n m w)))
           = particleRow j (velocities (kern w))"
    using dopen[of ext integ n m] k topen[of ext integ n m "(velocities (kern w), rand w)"]
    by (simp add: firstHalfOpen_def Let_def split_beta)
  have 7: "particleRow j (positions (kern (secondHalfOpen ext sys integ n m w)))
           = particleRow j (positions (kern w))"
    by (simp add: secondHalfOpen_def advanceTime_def Let_def split_beta)
  have 8: "particleRow j (velocities (kern (secondHalfOpen ext sys integ n m w)))
           = particleRow j (velocities (kern w))"
    using k topen[of ext integ n m]
    by (simp add: secondHalfOpen_def advanceTime_def Let_def split_beta)
  show ?thesis using 1 2 3 4 5 6 7 8 by blast
qed


theorem zero_mass_particles_untouched_witness:
  "particleRow 0 (positions (kern (firstHalfClosed testExternal \<lparr>masses = [0, 2]\<rparr>
        ((testIntegrator 2 False)\<lparr>getApplyThermostat := True\<rparr>) 2 2 movingWorld)))
     = [(1, 2, 3), (4, 5, 6)] \<and>
   particleRow 0 (velocities (kern (firstHalfClosed testExternal \<lparr>masses = [0, 2]\<rparr>
        ((testIntegrator 2 False)\<lparr>getApplyThermostat := True\<rparr>) 2 2 movingWorld)))
     = [(1, 0, - 1), (2, 2, 2)] \<and>
   particleRow 0 (velocities (kern (secondHalfClosed testExternal \<lparr>masses = [0, 2]\<rparr>
        ((testIntegrator 2 False)\<lparr>getApplyThermostat := True\<rparr>) 2 2 movingWorld)))
     = [(1, 0, - 1), (2, 2, 2)] \<and>
   particleRow 0 (positions (kern (firstHalfOpen testExternal \<lparr>masses = [0, 2]\<rparr>
        ((testIntegrator 2 True)\<lparr>getApplyThermostat := True\<rparr>) 2 2 movingWorld)))
     = [(1, 2, 3), (4, 5, 6)] \<and>
   particleRow 0 (velocities (kern (secondHalfOpen testExternal \<lparr>masses = [0, 2]\<rparr>
        ((testIntegrator 2 True)\<lparr>getApplyThermostat := True\<rparr>) 2 2 movingWorld)))
     = [(1, 0, - 1), (2, 2, 2)] \<and>
   particleRow 1 (kick \<lparr>masses = [0, 2]\<rparr> (1 / 2) 2 2 (forces (kern movingWorld))
        (velocities (kern movingWorld)))
     = [(3 / 2, 2, 5 / 2), (1, 2, 1)] \<and>
   particleRow 1 (velocities (kern movingWorld)) = [(1, 1, 1), (0, 1, 0)]"
proof -
  have m: "getParticleMass \<lparr>masses = [0, 2]\<rparr> 0 = 0" by (simp add: getParticleMass_def)
  note t1 = zero_mass_particles_untouched[OF m, of testExternal
      "(testIntegrator 2 False)\<lparr>getApplyThermostat := True\<rparr>" 2 2 movingWorld]
  note t2 = zero_mass_particles_untouched[OF m, of testExternal
      "(testIntegrator 2 True)\<lparr>getApplyThermostat := True\<rparr>" 2 2 movingWorld]
  have rows: "particleRow 0 (positions (kern movingWorld)) = [(1, 2, 3), (4, 5, 6)]"
    "particleRow 0 (velocities (kern movingWorld)) = [(1, 0, - 1), (2, 2, 2)]"
    "particleRow 1 (velocities (kern movingWorld)) = [(1, 1, 1), (0, 1, 0)]"
    by (simp_all add: particleRow_def movingWorld_def)
  have k: "particleRow 1 (kick \<lparr>masses = [0, 2]\<rparr> (1 / 2) 2 2 (forces (kern movingWorld))
        (velocities (kern movingWorld))) = [(3 / 2, 2, 5 / 2), (1, 2, 1)]"
    by (simp add: kick_def kickParticle_def getParticleMass_def movingWorld_def particleRow_def
        numeral_2_eq_2)
  show ?thesis using t1 t2 rows k by simp
qed

section \<open>The free ring polymer\<close>

lemma writeColumn_Suc:
  "writeColumn a p c (Suc n) f =
     (writeColumn a p c n f)[n := (writeColumn a p c n f ! n)
        [p := setComponent (writeColumn a p c n f ! n ! p) c (f n)]]"
  by (simp add: writeColumn_def)

lemma length_writeColumn [simp]: "length (writeColumn a p c n f) = length a"
  by (induction n) (simp_all add: writeColumn_Suc, simp add: writeColumn_def)

lemma writeColumn_nth:
  "writeColumn a p c n f ! k =
     (if k < n \<and> k < length a then (a ! k)[p := setComponent (a ! k ! p) c (f k)] else a ! k)"
proof (induction n)
  case 0
  then show ?case by (simp add: writeColumn_def)
next
  case (Suc n)
  show ?case
  proof (cases "k = n")
    case True
    have "writeColumn a p c n f ! n = a ! n" using Suc True by simp
    then show ?thesis using True
      by (cases "n < length a") (simp_all add: writeColumn_Suc list_update_beyond)
  next
    case False
    then show ?thesis using Suc by (auto simp: writeColumn_Suc)
  qed
qed

lemma shaped_writeColumn: "shaped P N a \<Longrightarrow> shaped P N (writeColumn a p c n f)"
  by (simp add: shaped_def writeColumn_nth)

lemma component_setComponent:
  "c < 3 \<Longrightarrow> c' < 3 \<Longrightarrow> component (setComponent v c x) c' = (if c' = c then x else component v c')"
  by (cases v) auto

lemma readColumn_writeColumn_same:
  assumes "shaped P N a" "p < N" "c < 3" "n \<le> P"
  shows "readColumn (writeColumn a p c n f) p c n = map f [0..<n]"
  unfolding readColumn_def
proof (rule map_cong[OF refl])
  fix k assume "k \<in> set [0..<n]"
  then have k: "k < n" "k < length a" using assms by (simp_all add: shaped_def)
  then have "p < length (a ! k)" using assms by (simp add: shaped_def)
  then show "component (writeColumn a p c n f ! k ! p) c = f k"
    using k assms(3) by (simp add: writeColumn_nth component_setComponent)
qed

lemma readColumn_writeColumn_other:
  assumes "p' \<noteq> p \<or> c' \<noteq> c" "c < 3" "c' < 3"
  shows "readColumn (writeColumn a p c n f) p' c' n' = readColumn a p' c' n'"
  unfolding readColumn_def
proof (rule map_cong[OF refl])
  fix k
  show "component (writeColumn a p c n f ! k ! p') c' = component (a ! k ! p') c'"
  proof (cases "p' = p")
    case False
    then show ?thesis by (simp add: writeColumn_nth)
  next
    case True
    then have cc: "c' \<noteq> c" using assms by simp
    show ?thesis
    proof (cases "p < length (a ! k)")
      case True
      then show ?thesis using cc assms \<open>p' = p\<close>
        by (simp add: writeColumn_nth component_setComponent)
    next
      case False
      then show ?thesis using \<open>p' = p\<close> by (simp add: writeColumn_nth list_update_beyond)
    qed
  qed
qed

lemma fold_keyed:
  assumes "distinct xs"
    and inv: "\<And>x s. I s \<Longrightarrow> I (S x s)"
    and other: "\<And>x s. I s \<Longrightarrow> x \<in> set xs \<Longrightarrow> x \<noteq> y \<Longrightarrow> proj y (S x s) = proj y s"
    and self: "\<And>s. I s \<Longrightarrow> y \<in> set xs \<Longrightarrow> proj y (S y s) = F y (proj y s)"
    and "I s"
  shows "I (fold S xs s) \<and>
         proj y (fold S xs s) = (if y \<in> set xs then F y (proj y s) else proj y s)"
  using assms(1,5) other self
proof (induction xs arbitrary: s)
  case Nil
  then show ?case by simp
next
  case (Cons x xs)
  have Is: "I (S x s)" using Cons.prems(2) by (rule inv)
  have d: "distinct xs" and nx: "x \<notin> set xs" using Cons.prems(1) by simp_all
  have IH: "I (fold S xs (S x s)) \<and>
         proj y (fold S xs (S x s)) = (if y \<in> set xs then F y (proj y (S x s)) else proj y (S x s))"
    using Cons.IH[OF d Is] Cons.prems(3,4) by simp
  show ?case
  proof (cases "y = x")
    case True
    then have "proj y (S x s) = F y (proj y s)" using Cons.prems(4)[OF Cons.prems(2)] by simp
    then show ?thesis using IH True nx by simp
  next
    case False
    then have "proj y (S x s) = proj y s" using Cons.prems(3)[OF Cons.prems(2), of x] by simp
    then show ?thesis using IH False by simp
  qed
qed

lemma fold_pointwise2:
  assumes step: "\<And>k q v. step k (q, v) = (q[k := f k (q ! k) (v ! k)], v[k := g k (q ! k) (v ! k)])"
    and len: "length q = n" "length v = n"
  shows "b \<le> n \<Longrightarrow> fold step [a..<b] (q, v) =
     (map (\<lambda>k. if a \<le> k \<and> k < b then f k (q ! k) (v ! k) else q ! k) [0..<n],
      map (\<lambda>k. if a \<le> k \<and> k < b then g k (q ! k) (v ! k) else v ! k) [0..<n])"
proof (induction b)
  case 0
  have "map (\<lambda>k. q ! k) [0..<n] = q" "map (\<lambda>k. v ! k) [0..<n] = v"
    using map_nth[of q] map_nth[of v] len by simp_all
  then show ?case by simp
next
  case (Suc b)
  then have b: "b < n" by simp
  show ?case
  proof (cases "a \<le> b")
    case False
    then have "[a..<Suc b] = []" by simp
    moreover have "map (\<lambda>k. q ! k) [0..<n] = q" "map (\<lambda>k. v ! k) [0..<n] = v"
      using map_nth[of q] map_nth[of v] len by simp_all
    moreover have "(\<lambda>k. if a \<le> k \<and> k < Suc b then f k (q ! k) (v ! k) else q ! k) = (\<lambda>k. q ! k)"
      "(\<lambda>k. if a \<le> k \<and> k < Suc b then g k (q ! k) (v ! k) else v ! k) = (\<lambda>k. v ! k)"
      using False by (auto simp: fun_eq_iff)
    ultimately show ?thesis by simp
  next
    case True
    let ?q = "map (\<lambda>k. if a \<le> k \<and> k < b then f k (q ! k) (v ! k) else q ! k) [0..<n]"
    let ?v = "map (\<lambda>k. if a \<le> k \<and> k < b then g k (q ! k) (v ! k) else v ! k) [0..<n]"
    have "fold step [a..<Suc b] (q, v) = step b (fold step [a..<b] (q, v))"
      using True by simp
    also have "\<dots> = step b (?q, ?v)" using Suc.IH b by simp
    also have "\<dots> = (?q[b := f b (q ! b) (v ! b)], ?v[b := g b (q ! b) (v ! b)])"
      using b by (simp add: step)
    also have "?q[b := f b (q ! b) (v ! b)] =
        map (\<lambda>k. if a \<le> k \<and> k < Suc b then f k (q ! k) (v ! k) else q ! k) [0..<n]"
      using b True by (intro nth_equalityI) (auto simp: nth_list_update less_Suc_eq)
    also have "?v[b := g b (q ! b) (v ! b)] =
        map (\<lambda>k. if a \<le> k \<and> k < Suc b then g k (q ! k) (v ! k) else v ! k) [0..<n]"
      using b True by (intro nth_equalityI) (auto simp: nth_list_update less_Suc_eq)
    finally show ?thesis .
  qed
qed

lemma driftModes_closed_form:
  assumes "length q = P" "length v = P"
  shows "driftModes P wn dt (q, v) =
     (map (driftedPosition P wn dt q v) [0..<P], map (driftedVelocity P wn dt q v) [0..<P])"
proof -
  let ?q0 = "q[0 := q ! 0 + v ! 0 * of_real dt]"
  let ?f = "\<lambda>k (x::complex) (y::complex).
     y * of_real (sin (modeFrequency wn P k * dt) / modeFrequency wn P k)
       + x * of_real (cos (modeFrequency wn P k * dt))"
  let ?g = "\<lambda>k (x::complex) (y::complex).
     y * of_real (cos (modeFrequency wn P k * dt))
       - x * of_real (modeFrequency wn P k * sin (modeFrequency wn P k * dt))"
  have step: "driftModeStep P wn dt k (q', v') =
      (q'[k := ?f k (q' ! k) (v' ! k)], v'[k := ?g k (q' ! k) (v' ! k)])" for k q' v'
    by (simp add: driftModeStep_def Let_def modeFrequency_def)
  have "driftModes P wn dt (q, v) = fold (driftModeStep P wn dt) [1..<P] (?q0, v)"
    by (simp add: driftModes_def)
  also have "\<dots> =
     (map (\<lambda>k. if 1 \<le> k \<and> k < P then ?f k (?q0 ! k) (v ! k) else ?q0 ! k) [0..<P],
      map (\<lambda>k. if 1 \<le> k \<and> k < P then ?g k (?q0 ! k) (v ! k) else v ! k) [0..<P])"
    using assms by (intro fold_pointwise2[where f = ?f and g = ?g] step) simp_all
  also have "map (\<lambda>k. if 1 \<le> k \<and> k < P then ?f k (?q0 ! k) (v ! k) else ?q0 ! k) [0..<P]
      = map (driftedPosition P wn dt q v) [0..<P]"
    using assms by (intro map_cong refl) (auto simp: driftedPosition_def)
  also have "map (\<lambda>k. if 1 \<le> k \<and> k < P then ?g k (?q0 ! k) (v ! k) else v ! k) [0..<P]
      = map (driftedVelocity P wn dt q v) [0..<P]"
    using assms by (intro map_cong refl) (auto simp: driftedVelocity_def)
  finally show ?thesis .
qed

lemma length_c2c: "n \<le> length xs \<Longrightarrow> length (c2c n forward xs fct) = length xs"
  by (simp add: c2c_def)

lemma length_readColumn [simp]: "length (readColumn a p c n) = n"
  by (simp add: readColumn_def)

lemma driftComponent_shaped2:
  "shaped2 P N s \<Longrightarrow> shaped2 P N (driftComponent P scale wn dt p c s)"
  by (simp add: shaped2_def driftComponent_def split_beta shaped_writeColumn)

lemma driftComponent_other:
  "p' \<noteq> p \<or> c' \<noteq> c \<Longrightarrow> c < 3 \<Longrightarrow> c' < 3 \<Longrightarrow>
   columns P p' c' (driftComponent n scale wn dt p c s) = columns P p' c' s"
  by (simp add: columns_def driftComponent_def split_beta readColumn_writeColumn_other)

lemma driftComponent_self:
  assumes "shaped2 P N s" "p < N" "c < 3"
  shows "columns P p c (driftComponent P scale wn dt p c s)
           = driftedColumns P scale wn dt (columns P p c s)"
proof -
  obtain pos vel where s: "s = (pos, vel)" by (cases s)
  have sh: "shaped P N pos" "shaped P N vel" using assms(1) by (simp_all add: shaped2_def s)
  let ?q = "c2c P True (map (\<lambda>x. Complex (scale * x) 0) (readColumn pos p c P)) 1"
  let ?v = "c2c P True (map (\<lambda>x. Complex (scale * x) 0) (readColumn vel p c P)) 1"
  have len: "length ?q = P" "length ?v = P" by (simp_all add: length_c2c)
  have dc: "driftColumn P scale wn dt (readColumn pos p c P, readColumn vel p c P) =
      (c2c P False (map (driftedPosition P wn dt ?q ?v) [0..<P]) 1,
       c2c P False (map (driftedVelocity P wn dt ?q ?v) [0..<P]) 1)"
    unfolding driftColumn_def Let_def split_conv driftModes_closed_form[OF len] ..
  show ?thesis
    unfolding s columns_def driftComponent_def Let_def split_conv dc fst_conv snd_conv
      driftedColumns_def
    using sh assms(2,3) by (simp add: readColumn_writeColumn_same)
qed

lemma driftParticle_columns:
  assumes "shaped2 P N s" "p < N" "c < 3"
  shows "columns P p c (fold (driftComponent P scale wn dt p) [0..<3] s)
           = driftedColumns P scale wn dt (columns P p c s)"
proof -
  have "shaped2 P N (fold (driftComponent P scale wn dt p) [0..<3] s) \<and>
        columns P p c (fold (driftComponent P scale wn dt p) [0..<3] s) =
          (if c \<in> set [0..<3] then driftedColumns P scale wn dt (columns P p c s)
           else columns P p c s)"
  proof (rule fold_keyed[where I = "shaped2 P N" and proj = "columns P p"
        and F = "\<lambda>c. driftedColumns P scale wn dt"])
    show "distinct [0..<3::nat]" by simp
    show "shaped2 P N s" by fact
    show "\<And>x s. shaped2 P N s \<Longrightarrow> shaped2 P N (driftComponent P scale wn dt p x s)"
      by (rule driftComponent_shaped2)
    show "\<And>x s. shaped2 P N s \<Longrightarrow> x \<in> set [0..<3] \<Longrightarrow> x \<noteq> c \<Longrightarrow>
        columns P p c (driftComponent P scale wn dt p x s) = columns P p c s"
      using assms(3) by (simp add: driftComponent_other)
    show "\<And>s. shaped2 P N s \<Longrightarrow> c \<in> set [0..<3] \<Longrightarrow>
        columns P p c (driftComponent P scale wn dt p c s)
          = driftedColumns P scale wn dt (columns P p c s)"
      using assms(2,3) by (simp add: driftComponent_self)
  qed
  then show ?thesis using assms(3) by simp
qed

lemma driftParticle_shaped2:
  "shaped2 P N s \<Longrightarrow> shaped2 P N (fold (driftComponent P scale wn dt p) cs s)"
  by (induction cs arbitrary: s) (simp_all add: driftComponent_shaped2)

lemma driftParticle_other:
  assumes "p' \<noteq> p" "c' < 3"
  shows "columns P p' c' (fold (driftComponent n scale wn dt p) [0..<3] s) = columns P p' c' s"
  by (rule fold_frame) (use assms in \<open>simp add: driftComponent_other\<close>)

lemma modeFrequency_nonzero:
  assumes "wn \<noteq> 0" "1 \<le> k" "k < P"
  shows "modeFrequency wn P k \<noteq> 0"
proof -
  have "0 < real k * pi / real P" using assms by simp
  moreover have "real k * pi / real P < pi"
  proof -
    have "real k / real P < 1" using assms by simp
    then have "real k / real P * pi < 1 * pi" by (intro mult_strict_right_mono) simp_all
    then show ?thesis by simp
  qed
  ultimately have "0 < sin (real k * pi / real P)" by (rule sin_gt_zero)
  then show ?thesis using assms(1) by (simp add: modeFrequency_def)
qed

lemma hbar_nonzero: "AVOGADRO ext \<noteq> 0 \<Longrightarrow> hbar ext \<noteq> 0"
  by (simp add: hbar_def)

text \<open>
  Claim C1.  At a non-zero temperature (and with non-zero constants \<open>k\<^sub>B\<close> and \<open>N\<^sub>A\<close>), for
  every particle of non-zero mass and every Cartesian component, the closed-path
  free-polymer block replaces the position and velocity columns by the back-transformed,
  rescaled modes \<open>q'\<close> and \<open>v'\<close>, where for every mode \<open>k\<close> in \<open>[1, P)\<close>
  \<open>v'\<^sub>k = v\<^sub>k c - q\<^sub>k \<omega>\<^sub>k s\<close> and \<open>q'\<^sub>k = v\<^sub>k s / \<omega>\<^sub>k + q\<^sub>k c\<close> are both computed from the old
  \<open>q\<close> and \<open>v\<close>, and the centroid is advanced as \<open>q\<^sub>0 + v\<^sub>0 \<Delta>t\<close>
  (\<open>driftedColumns\<close>, \<open>driftedPosition\<close>, \<open>driftedVelocity\<close>); every \<open>\<omega>\<^sub>k\<close> with \<open>k\<close> in
  \<open>[1, P)\<close> is non-zero, so the quotient \<open>s / \<omega>\<^sub>k\<close> is a division of real numbers.
\<close>

theorem closed_path_free_polymer_drift:
  assumes "shaped P N pos" and "shaped P N vel"
    and "p < N" and "getParticleMass sys p \<noteq> 0" and "c < 3"
    and "getTemperature integ \<noteq> 0" and "BOLTZ ext \<noteq> 0" and "AVOGADRO ext \<noteq> 0"
  shows "columns P p c (driftClosed ext sys integ P N (pos, vel)) =
      driftedColumns P (1 / sqrt (real P))
        (2 * (real P * BOLTZ ext * getTemperature integ) / hbar ext) (getStepSize integ)
        (columns P p c (pos, vel)) \<and>
      (\<forall>k. 1 \<le> k \<and> k < P \<longrightarrow>
         modeFrequency (2 * (real P * BOLTZ ext * getTemperature integ) / hbar ext) P k \<noteq> 0)"
proof (intro conjI allI impI)
  define scale where "scale = 1 / sqrt (real P)"
  define wn where "wn = 2 * (real P * BOLTZ ext * getTemperature integ) / hbar ext"
  define dt where "dt = getStepSize integ"
  define S where "S = (\<lambda>particle pv.
                if getParticleMass sys particle = 0 then pv
                else fold (driftComponent P scale wn dt particle) [0..<3] pv)"
  have dc: "driftClosed ext sys integ P N (pos, vel) = fold S [0..<N] (pos, vel)"
    unfolding driftClosed_def Let_def S_def scale_def wn_def dt_def ..
  have "shaped2 P N (fold S [0..<N] (pos, vel)) \<and>
        columns P p c (fold S [0..<N] (pos, vel)) =
          (if p \<in> set [0..<N] then driftedColumns P scale wn dt (columns P p c (pos, vel))
           else columns P p c (pos, vel))"
  proof (rule fold_keyed[where I = "shaped2 P N" and proj = "\<lambda>p. columns P p c"
        and F = "\<lambda>p. driftedColumns P scale wn dt"])
    show "distinct [0..<N]" by simp
    show "shaped2 P N (pos, vel)" using assms(1,2) by (simp add: shaped2_def)
    show "\<And>x s. shaped2 P N s \<Longrightarrow> shaped2 P N (S x s)"
      by (simp add: S_def driftParticle_shaped2)
    show "\<And>x s. shaped2 P N s \<Longrightarrow> x \<in> set [0..<N] \<Longrightarrow> x \<noteq> p \<Longrightarrow>
        columns P p c (S x s) = columns P p c s"
      using assms(5) by (simp add: S_def driftParticle_other)
    show "\<And>s. shaped2 P N s \<Longrightarrow> p \<in> set [0..<N] \<Longrightarrow>
        columns P p c (S p s) = driftedColumns P scale wn dt (columns P p c s)"
      using assms(3,4,5) by (simp add: S_def driftParticle_columns)
  qed
  then show "columns P p c (driftClosed ext sys integ P N (pos, vel)) =
      driftedColumns P (1 / sqrt (real P))
        (2 * (real P * BOLTZ ext * getTemperature integ) / hbar ext) (getStepSize integ)
        (columns P p c (pos, vel))"
    using assms(3) by (simp add: dc scale_def wn_def dt_def)
next
  fix k assume k: "1 \<le> k \<and> k < P"
  then have "real P \<noteq> 0" by simp
  then have "2 * (real P * BOLTZ ext * getTemperature integ) / hbar ext \<noteq> 0"
    using assms(6,7) hbar_nonzero[OF assms(8)] by simp
  then show "modeFrequency (2 * (real P * BOLTZ ext * getTemperature integ) / hbar ext) P k \<noteq> 0"
    using k by (intro modeFrequency_nonzero) simp_all
qed

lemma unityRoot_2: "unityRoot 2 forward = - 1"
  by (simp add: unityRoot_def complex_eq_iff cis.ctr)

lemma c2c_2: "c2c 2 forward [a, b] 1 = [a + b, a - b]"
proof -
  have set2: "{..<2::nat} = {0, 1}" by auto
  have idx: "[0..<2] = [0, 1::nat]" by (simp add: upt_rec)
  show ?thesis
    unfolding c2c_def unityRoot_2 idx set2 by simp
qed

lemma driftedColumns_2:
  "driftedColumns 2 (1 / sqrt 2) w dt ([x0, x1], [u0, u1]) =
     ([((x0 + x1) + (u0 + u1) * dt
          + ((u0 - u1) * (sin (w * dt) / w) + (x0 - x1) * cos (w * dt))) / 2,
       ((x0 + x1) + (u0 + u1) * dt
          - ((u0 - u1) * (sin (w * dt) / w) + (x0 - x1) * cos (w * dt))) / 2],
      [((u0 + u1) + ((u0 - u1) * cos (w * dt) - (x0 - x1) * (w * sin (w * dt)))) / 2,
       ((u0 + u1) - ((u0 - u1) * cos (w * dt) - (x0 - x1) * (w * sin (w * dt)))) / 2])"
proof -
  define s where "s = 1 / sqrt (2::real)"
  define B0 where "B0 = (x0 + x1) + (u0 + u1) * dt"
  define B1 where "B1 = (u0 - u1) * (sin (w * dt) / w) + (x0 - x1) * cos (w * dt)"
  define C0 where "C0 = u0 + u1"
  define C1 where "C1 = (u0 - u1) * cos (w * dt) - (x0 - x1) * (w * sin (w * dt))"
  define q where "q = c2c 2 True (map (\<lambda>x. Complex (s * x) 0) [x0, x1]) 1"
  define v where "v = c2c 2 True (map (\<lambda>x. Complex (s * x) 0) [u0, u1]) 1"
  have idx: "[0..<2] = [0, 1::nat]" by (simp add: upt_rec)
  have mf: "modeFrequency w 2 (Suc 0) = w" by (simp add: modeFrequency_def)
  have ss: "s * (s * a) = a / 2" for a
  proof -
    have "s * s = 1 / 2" by (simp add: s_def)
    then have "(s * s) * a = a / 2" by simp
    then show ?thesis by (simp only: mult.assoc)
  qed
  have q: "q = [of_real (s * (x0 + x1)), of_real (s * (x0 - x1))]"
    unfolding q_def by (simp add: c2c_2 complex_eq_iff algebra_simps)
  have v: "v = [of_real (s * (u0 + u1)), of_real (s * (u0 - u1))]"
    unfolding v_def by (simp add: c2c_2 complex_eq_iff algebra_simps)
  have qm: "map (driftedPosition 2 w dt q v) [0..<2] = [of_real (s * B0), of_real (s * B1)]"
    unfolding idx q v
    by (simp add: driftedPosition_def mf B0_def B1_def algebra_simps add_divide_distrib
        diff_divide_distrib)
  have vm: "map (driftedVelocity 2 w dt q v) [0..<2] = [of_real (s * C0), of_real (s * C1)]"
    unfolding idx q v
    by (simp add: driftedVelocity_def mf C0_def C1_def algebra_simps)
  have rev: "map (\<lambda>k. s * Re (c2c 2 False [of_real (s * a), of_real (s * b)] 1 ! k)) [0..<2]
      = [(a + b) / 2, (a - b) / 2]" for a b :: real
    unfolding idx c2c_2 by (simp add: ss distrib_left right_diff_distrib)
  have "driftedColumns 2 s w dt ([x0, x1], [u0, u1]) =
      ([(B0 + B1) / 2, (B0 - B1) / 2], [(C0 + C1) / 2, (C0 - C1) / 2])"
    unfolding driftedColumns_def Let_def fst_conv snd_conv q_def[symmetric] v_def[symmetric]
      qm vm rev ..
  then show ?thesis unfolding s_def B0_def B1_def C0_def C1_def .
qed

lemma driftedColumns_example: "driftedColumns 2 (1 / sqrt 2) w 1 ([1, 3], [2, 0]) =
     ([3 + (sin w / w - cos w), 3 - (sin w / w - cos w)],
      [1 + (cos w + w * sin w), 1 - (cos w + w * sin w)])"
    unfolding driftedColumns_2 by (simp add: add_divide_distrib diff_divide_distrib)

theorem closed_path_free_polymer_drift_witness:
  "columns 2 0 0 (driftClosed testExternal \<lparr>masses = [1]\<rparr> (testIntegrator 2 False) 2 1
      ([[(1, 2, 3)], [(3, 0, 0)]], [[(2, 0, 0)], [(0, 1, 0)]])) =
     ([3 + (sin (4 / hbar testExternal) / (4 / hbar testExternal) - cos (4 / hbar testExternal)),
       3 - (sin (4 / hbar testExternal) / (4 / hbar testExternal) - cos (4 / hbar testExternal))],
      [1 + (cos (4 / hbar testExternal)
              + 4 / hbar testExternal * sin (4 / hbar testExternal)),
       1 - (cos (4 / hbar testExternal)
              + 4 / hbar testExternal * sin (4 / hbar testExternal))]) \<and>
   modeFrequency (4 / hbar testExternal) 2 1 \<noteq> 0"
proof -
  define w where "w = 4 / hbar testExternal"
  have sh: "shaped 2 1 [[(1, 2, 3)], [(3, 0, 0)]]" "shaped 2 1 [[(2, 0, 0)], [(0, 1, 0)]]"
    by (simp_all add: shaped_def less_Suc_eq numeral_2_eq_2)
  have h: "(0::nat) < 1" "getParticleMass \<lparr>masses = [1]\<rparr> 0 \<noteq> 0" "(0::nat) < 3"
    "getTemperature (testIntegrator 2 False) \<noteq> 0" "BOLTZ testExternal \<noteq> 0"
    "AVOGADRO testExternal \<noteq> 0"
    by (simp_all add: getParticleMass_def testIntegrator_def testExternal_def)
  have wn: "2 * (2 * BOLTZ testExternal * getTemperature (testIntegrator 2 False))
      / hbar testExternal = w"
    by (simp add: w_def testIntegrator_def testExternal_def)
  have dt: "getStepSize (testIntegrator 2 False) = 1" by (simp add: testIntegrator_def)
  have idx: "[0..<2] = [0, 1::nat]" by (simp add: upt_rec)
  have cols: "columns 2 0 0 ([[(1, 2, 3)], [(3, 0, 0)]], [[(2, 0, 0)], [(0, 1, 0)]])
      = ([1, 3], [2, 0])"
    unfolding columns_def readColumn_def idx by simp
  have two: "real 2 = 2" by simp
  note t = closed_path_free_polymer_drift[OF sh h, unfolded two wn dt cols driftedColumns_example]
  have k: "(1::nat) \<le> 1 \<and> (1::nat) < 2" by simp
  have 2: "modeFrequency w 2 1 \<noteq> 0" using t[THEN conjunct2, rule_format, OF k] .
  have "columns 2 0 0 (driftClosed testExternal \<lparr>masses = [1]\<rparr>
      (testIntegrator 2 False) 2 1 ([[(1, 2, 3)], [(3, 0, 0)]], [[(2, 0, 0)], [(0, 1, 0)]]))
      = ([3 + (sin w / w - cos w), 3 - (sin w / w - cos w)],
      [1 + (cos w + w * sin w), 1 - (cos w + w * sin w)]) \<and> modeFrequency w 2 1 \<noteq> 0"
    using t[THEN conjunct1] 2 by (rule conjI)
  then show ?thesis unfolding w_def .
qed

section \<open>The PILE thermostat\<close>

lemma pileModeStep_eq:
  "pileModeStep P wn halfdt nkT mass k (v, r) =
     (let c1 = pileC1 wn halfdt P k;
          c3 = pileC3 wn halfdt nkT mass P k;
          rand1 = c3 * r 0;
          rand2 = (if isNyquist P k then 0 else c3 * r 1);
          v1 = v[k := v ! k * of_real c1 + Complex rand1 rand2]
      in (if k < P - k then v1[P - k := v1 ! (P - k) * of_real c1 + Complex rand1 (- rand2)] else v1,
          if isNyquist P k then (\<lambda>n. r (Suc n)) else (\<lambda>n. r (Suc (Suc n)))))"
  by (simp add: pileModeStep_def Let_def getNormallyDistributedRandomNumber_def isNyquist_def
      pileC1_def pileC2_def pileC3_def modeFrequency_def power2_eq_square
      even_iff_mod_2_eq_zero)

lemma length_pileModeStep [simp]:
  "length (fst (pileModeStep P wn halfdt nkT mass k (v, r))) = length v"
  by (simp add: pileModeStep_eq Let_def)

lemma pileModeStep_untouched:
  "j \<noteq> k \<Longrightarrow> j \<noteq> P - k \<Longrightarrow> fst (pileModeStep P wn halfdt nkT mass k (v, r)) ! j = v ! j"
  by (simp add: pileModeStep_eq Let_def)

lemma pileModeStep_rng:
  "\<not> isNyquist P k \<Longrightarrow>
   snd (pileModeStep P wn halfdt nkT mass k (v, r)) = (\<lambda>n. r (n + 2))"
  by (simp add: pileModeStep_eq Let_def)

lemma pileModeStep_direct:
  "k < length v \<Longrightarrow>
   fst (pileModeStep P wn halfdt nkT mass k (v, r)) ! k =
     v ! k * of_real (pileC1 wn halfdt P k) +
       Complex (pileC3 wn halfdt nkT mass P k * r 0)
         (if isNyquist P k then 0 else pileC3 wn halfdt nkT mass P k * r 1)"
  by (simp add: pileModeStep_eq Let_def)

lemma pileModeStep_mirror:
  "k < P - k \<Longrightarrow> P - k < length v \<Longrightarrow>
   fst (pileModeStep P wn halfdt nkT mass k (v, r)) ! (P - k) =
     v ! (P - k) * of_real (pileC1 wn halfdt P k) +
       Complex (pileC3 wn halfdt nkT mass P k * r 0) (- (pileC3 wn halfdt nkT mass P k * r 1))"
  by (auto simp: pileModeStep_eq Let_def isNyquist_def)

lemma length_fold_pileModeStep:
  "length (fst (fold (pileModeStep P wn halfdt nkT mass) ks s)) = length (fst s)"
proof (induction ks arbitrary: s)
  case Nil
  then show ?case by simp
next
  case (Cons k ks)
  obtain v r where s: "s = (v, r)" by (cases s)
  show ?case by (simp add: Cons s)
qed

lemma fold_pileModeStep_untouched:
  assumes "\<forall>k \<in> set ks. j \<noteq> k \<and> j \<noteq> P - k"
  shows "fst (fold (pileModeStep P wn halfdt nkT mass) ks s) ! j = fst s ! j"
proof (rule fold_frame)
  fix k s' assume "k \<in> set ks"
  then have "j \<noteq> k" "j \<noteq> P - k" using assms by simp_all
  then show "fst (pileModeStep P wn halfdt nkT mass k s') ! j = fst s' ! j"
    by (cases s') (simp add: pileModeStep_untouched)
qed

lemma fold_pileModeStep_rng:
  assumes "\<forall>k \<in> set [a..<b]. \<not> isNyquist P k"
  shows "snd (fold (pileModeStep P wn halfdt nkT mass) [a..<b] s) = (\<lambda>n. snd s (n + 2 * (b - a)))"
  using assms
proof (induction b)
  case 0
  then show ?case by simp
next
  case (Suc b)
  show ?case
  proof (cases "a \<le> b")
    case False
    then show ?thesis by simp
  next
    case True
    let ?s = "fold (pileModeStep P wn halfdt nkT mass) [a..<b] s"
    have IH: "snd ?s = (\<lambda>n. snd s (n + 2 * (b - a)))" using Suc by simp
    have nn: "\<not> isNyquist P b" using Suc.prems True by simp
    have "snd (pileModeStep P wn halfdt nkT mass b ?s) = (\<lambda>n. snd ?s (n + 2))"
      using pileModeStep_rng[OF nn, of wn halfdt nkT mass "fst ?s" "snd ?s"] by simp
    also have "\<dots> = (\<lambda>n. snd s (n + 2 * (Suc b - a)))"
      using True by (simp add: IH Suc_diff_le add.commute add.left_commute)
    finally show ?thesis using True by simp
  qed
qed

lemma pileModes_loop_mode:
  fixes wn halfdt nkT mass :: real and r :: rng and v :: "complex list" and P k K :: nat
  assumes len: "length v = P" and k: "1 \<le> k" "k \<le> P div 2" and kK: "k < K" "K \<le> P div 2 + 1"
  defines "s' \<equiv> fold (pileModeStep P wn halfdt nkT mass) [1..<K] (v, r)"
  shows "fst s' ! k =
      v ! k * of_real (pileC1 wn halfdt P k) +
        Complex (pileC3 wn halfdt nkT mass P k * r (2 * (k - 1)))
          (if isNyquist P k then 0 else pileC3 wn halfdt nkT mass P k * r (2 * (k - 1) + 1))"
    and "k < P - k \<Longrightarrow> fst s' ! (P - k) =
      v ! (P - k) * of_real (pileC1 wn halfdt P k) +
        Complex (pileC3 wn halfdt nkT mass P k * r (2 * (k - 1)))
          (- (pileC3 wn halfdt nkT mass P k * r (2 * (k - 1) + 1)))"
proof -
  let ?step = "pileModeStep P wn halfdt nkT mass"
  define s1 where "s1 = fold ?step [1..<k] (v, r)"
  define s2 where "s2 = ?step k s1"
  have "[1..<K] = [1..<k] @ [k..<K]"
    using k kK upt_add_eq_append[of 1 k "K - k"] by simp
  moreover have "[k..<K] = k # [Suc k..<K]" using kK by (simp add: upt_conv_Cons)
  ultimately have split: "[1..<K] = [1..<k] @ k # [Suc k..<K]" by simp
  have s': "s' = fold ?step [Suc k..<K] s2"
    unfolding s'_def split s2_def s1_def by simp
  have before: "\<forall>k' \<in> set [1..<k]. \<not> isNyquist P k'"
    using k by (auto simp: isNyquist_def)
  obtain v1 r1 where s1: "s1 = (v1, r1)" by (cases s1)
  have "snd s1 = (\<lambda>n. r (n + 2 * (k - 1)))"
    unfolding s1_def using fold_pileModeStep_rng[OF before] by simp
  then have r1: "r1 0 = r (2 * (k - 1))" "r1 1 = r (2 * (k - 1) + 1)" by (simp_all add: s1)
  have "length (fst s1) = P"
    unfolding s1_def using len by (simp add: length_fold_pileModeStep)
  then have l1: "length v1 = P" by (simp add: s1)
  have kP: "k < P" "P - k < P" using k by auto
  have "fst s1 ! k = v ! k"
    unfolding s1_def using k
    by (subst fold_pileModeStep_untouched) auto
  then have v1k: "v1 ! k = v ! k" by (simp add: s1)
  have "fst s1 ! (P - k) = v ! (P - k)"
    unfolding s1_def using k
    by (subst fold_pileModeStep_untouched) auto
  then have v1m: "v1 ! (P - k) = v ! (P - k)" by (simp add: s1)
  have s2k: "fst s2 ! k =
      v ! k * of_real (pileC1 wn halfdt P k) +
        Complex (pileC3 wn halfdt nkT mass P k * r (2 * (k - 1)))
          (if isNyquist P k then 0 else pileC3 wn halfdt nkT mass P k * r (2 * (k - 1) + 1))"
    unfolding s2_def s1 pileModeStep_direct[of k v1, unfolded l1, OF kP(1)] v1k r1 ..
  have s2m: "fst s2 ! (P - k) =
      v ! (P - k) * of_real (pileC1 wn halfdt P k) +
        Complex (pileC3 wn halfdt nkT mass P k * r (2 * (k - 1)))
          (- (pileC3 wn halfdt nkT mass P k * r (2 * (k - 1) + 1)))" if "k < P - k"
    unfolding s2_def s1 pileModeStep_mirror[OF that, of v1, unfolded l1, OF kP(2)] v1m r1 ..
  have after: "\<forall>k' \<in> set [Suc k..<K]. k \<noteq> k' \<and> k \<noteq> P - k'"
    using k kK by auto
  have after_m: "\<forall>k' \<in> set [Suc k..<K]. P - k \<noteq> k' \<and> P - k \<noteq> P - k'"
    using k kK by auto
  show "fst s' ! k =
      v ! k * of_real (pileC1 wn halfdt P k) +
        Complex (pileC3 wn halfdt nkT mass P k * r (2 * (k - 1)))
          (if isNyquist P k then 0 else pileC3 wn halfdt nkT mass P k * r (2 * (k - 1) + 1))"
    unfolding s' fold_pileModeStep_untouched[OF after] by (rule s2k)
  show "fst s' ! (P - k) =
      v ! (P - k) * of_real (pileC1 wn halfdt P k) +
        Complex (pileC3 wn halfdt nkT mass P k * r (2 * (k - 1)))
          (- (pileC3 wn halfdt nkT mass P k * r (2 * (k - 1) + 1)))" if "k < P - k"
    unfolding s' fold_pileModeStep_untouched[OF after_m] using that by (rule s2m)
qed

lemma pileModes_fold:
  "pileModes P wn halfdt nkT c1_0 c3_0 mass (v, r) =
     fold (pileModeStep P wn halfdt nkT mass) [1..<P div 2 + 1]
       (v[0 := Complex (Re (v ! 0) * c1_0 + c3_0 * r 0) (Im (v ! 0))], \<lambda>n. r (Suc n))"
  by (simp add: pileModes_def getNormallyDistributedRandomNumber_def Let_def)

lemma length_pileModes:
  "length (fst (pileModes P wn halfdt nkT c1_0 c3_0 mass (v, r))) = length v"
  by (simp add: pileModes_fold length_fold_pileModeStep)

lemma pileModes_centroid:
  assumes "length v = P" "0 < P"
  shows "fst (pileModes P wn halfdt nkT c1_0 c3_0 mass (v, r)) ! 0 =
     Complex (Re (v ! 0) * c1_0 + c3_0 * r 0) (Im (v ! 0))"
proof -
  have "\<forall>k \<in> set [1..<P div 2 + 1]. 0 \<noteq> k \<and> 0 \<noteq> P - k" by auto
  from fold_pileModeStep_untouched[OF this] show ?thesis
    using assms by (simp add: pileModes_fold)
qed

lemma pileModes_mode:
  fixes wn halfdt nkT mass :: real and r :: rng and v :: "complex list" and P k :: nat
  assumes len: "length v = P" and k: "1 \<le> k" "k \<le> P div 2"
  shows "fst (pileModes P wn halfdt nkT c1_0 c3_0 mass (v, r)) ! k =
      v ! k * of_real (pileC1 wn halfdt P k) +
        Complex (pileC3 wn halfdt nkT mass P k * r (2 * k - 1))
          (if isNyquist P k then 0 else pileC3 wn halfdt nkT mass P k * r (2 * k))"
    and "k < P - k \<Longrightarrow> fst (pileModes P wn halfdt nkT c1_0 c3_0 mass (v, r)) ! (P - k) =
      v ! (P - k) * of_real (pileC1 wn halfdt P k) +
        Complex (pileC3 wn halfdt nkT mass P k * r (2 * k - 1))
          (- (pileC3 wn halfdt nkT mass P k * r (2 * k)))"
proof -
  let ?v0 = "v[0 := Complex (Re (v ! 0) * c1_0 + c3_0 * r 0) (Im (v ! 0))]"
  let ?r0 = "\<lambda>n. r (Suc n)"
  have l0: "length ?v0 = P" using len by simp
  have kK: "k < P div 2 + 1" "P div 2 + 1 \<le> P div 2 + 1" using k by simp_all
  have idx: "Suc (2 * (k - 1)) = 2 * k - 1" "Suc (2 * (k - 1) + 1) = 2 * k" using k by simp_all
  have v0: "?v0 ! k = v ! k" "?v0 ! (P - k) = v ! (P - k)" using k by simp_all
  show "fst (pileModes P wn halfdt nkT c1_0 c3_0 mass (v, r)) ! k =
      v ! k * of_real (pileC1 wn halfdt P k) +
        Complex (pileC3 wn halfdt nkT mass P k * r (2 * k - 1))
          (if isNyquist P k then 0 else pileC3 wn halfdt nkT mass P k * r (2 * k))"
    unfolding pileModes_fold pileModes_loop_mode(1)[OF l0 k kK] v0 idx ..
  show "fst (pileModes P wn halfdt nkT c1_0 c3_0 mass (v, r)) ! (P - k) =
      v ! (P - k) * of_real (pileC1 wn halfdt P k) +
        Complex (pileC3 wn halfdt nkT mass P k * r (2 * k - 1))
          (- (pileC3 wn halfdt nkT mass P k * r (2 * k)))" if "k < P - k"
    unfolding pileModes_fold pileModes_loop_mode(2)[OF l0 k kK that] v0 idx ..
qed

lemma pileModes_hermitian:
  fixes wn halfdt nkT mass :: real and r :: rng and v :: "complex list" and P :: nat
  assumes len: "length v = P" and h: "hermitian P v"
  shows "hermitian P (fst (pileModes P wn halfdt nkT c1_0 c3_0 mass (v, r)))"
proof -
  define v' where "v' = fst (pileModes P wn halfdt nkT c1_0 c3_0 mass (v, r))"
  have herm: "v ! ((P - k) mod P) = cnj (v ! k)" if "k < P" for k
    using h that by (simp add: hermitian_def)
  have low: "v' ! (P - k) = cnj (v' ! k)" if k: "1 \<le> k" "k \<le> P div 2" for k
  proof (cases "k < P - k")
    case True
    have kP: "k < P" using k by auto
    have "(P - k) mod P = P - k" using k by simp
    then have m: "v ! (P - k) = cnj (v ! k)" using herm[OF kP] by simp
    have nn: "\<not> isNyquist P k" using True by (auto simp: isNyquist_def)
    show ?thesis
      unfolding v'_def pileModes_mode(1)[OF len k] pileModes_mode(2)[OF len k True] m
      using nn by (simp add: complex_eq_iff)
  next
    case False
    then have eq: "P - k = k" using k by auto
    have kP: "k < P" using k by auto
    have "(P - k) mod P = k" using eq kP by simp
    then have "v ! k = cnj (v ! k)" using herm[OF kP] by simp
    then have im: "Im (v ! k) = 0" by (metis Reals_cnj_iff complex_is_Real_iff)
    have "P = 2 * k" using eq kP by linarith
    then have ny: "isNyquist P k" by (simp add: isNyquist_def)
    show ?thesis
      unfolding eq v'_def pileModes_mode(1)[OF len k]
      using ny im by (simp add: complex_eq_iff)
  qed
  show ?thesis
    unfolding hermitian_def v'_def[symmetric]
  proof (intro allI impI)
    fix k assume kP: "k < P"
    consider "k = 0" | "1 \<le> k" "k \<le> P div 2" | "P div 2 < k" by linarith
    then show "v' ! ((P - k) mod P) = cnj (v' ! k)"
    proof cases
      case 1
      have "v ! 0 = cnj (v ! 0)" using herm[of 0] kP by simp
      then have "Im (v ! 0) = 0" by (metis Reals_cnj_iff complex_is_Real_iff)
      then show ?thesis
        using 1 kP pileModes_centroid[OF len, of wn halfdt nkT c1_0 c3_0 mass r]
        by (simp add: v'_def complex_eq_iff)
    next
      case 2
      then have "(P - k) mod P = P - k" by simp
      then show ?thesis using low[OF 2] by simp
    next
      case 3
      define k' where "k' = P - k"
      have k': "1 \<le> k'" "k' \<le> P div 2" "P - k' = k" using 3 kP by (auto simp: k'_def)
      have "(P - k) mod P = k'" using k' kP by (simp add: k'_def)
      then show ?thesis using low[OF k'(1,2)] k'(3) by simp
    qed
  qed
qed

lemma c2c_nth:
  "k < n \<Longrightarrow> c2c n forward xs fct ! k = of_real fct * (\<Sum>j<n. xs ! j * unityRoot n forward ^ (j * k))"
  by (simp add: c2c_def nth_append)

lemma unityRoot_power_n: "0 < n \<Longrightarrow> unityRoot n forward ^ n = 1"
proof -
  assume n: "0 < n"
  have "unityRoot n forward ^ n = cis (real n * ((if forward then - 1 else 1) * (2 * pi / real n)))"
    by (simp add: unityRoot_def DeMoivre)
  also have "real n * ((if forward then - 1 else 1) * (2 * pi / real n))
      = (if forward then - (2 * pi) else 2 * pi)"
    using n by simp
  also have "cis (if forward then - (2 * pi) else 2 * pi) = 1"
    by (simp add: cis_2pi flip: cis_cnj)
  finally show ?thesis .
qed

lemma cnj_unityRoot: "cnj (unityRoot n forward) = unityRoot n (\<not> forward)"
  by (simp add: unityRoot_def cis_cnj)

lemma unityRoot_inverse: "unityRoot n forward * unityRoot n (\<not> forward) = 1"
  by (simp add: unityRoot_def cis_mult)

lemma unityRoot_mirror:
  assumes "k < n"
  shows "unityRoot n forward ^ (((n - k) mod n) * j) = unityRoot n (\<not> forward) ^ (k * j)"
proof (cases "k = 0")
  case True
  then show ?thesis using assms by simp
next
  case False
  let ?w = "unityRoot n forward" and ?u = "unityRoot n (\<not> forward)"
  have m: "(n - k) mod n = n - k" using assms False by simp
  have "?w ^ (n - k) * ?w ^ k = ?w ^ n" using assms by (simp flip: power_add)
  then have 1: "?w ^ (n - k) * ?w ^ k = 1" using assms unityRoot_power_n[of n forward] by simp
  have "?w ^ k * ?u ^ k = 1" by (simp add: unityRoot_inverse flip: power_mult_distrib)
  then have "?w ^ (n - k) = ?w ^ (n - k) * (?w ^ k * ?u ^ k)" by simp
  also have "\<dots> = (?w ^ (n - k) * ?w ^ k) * ?u ^ k" by (simp add: mult.assoc)
  also have "\<dots> = ?u ^ k" using 1 by simp
  finally have "?w ^ (n - k) = ?u ^ k" .
  then show ?thesis unfolding m by (simp add: power_mult)
qed

lemma mirror_bij:
  "(\<Sum>k<n. g ((n - k) mod n)) = (\<Sum>k<n. g k)" for g :: "nat \<Rightarrow> complex"
proof -
  have inv: "(n - (n - a) mod n) mod n = a" if "a < n" for a
    using that by (cases "a = 0") simp_all
  show ?thesis
    by (rule sum.reindex_bij_witness[of _ "\<lambda>k. (n - k) mod n" "\<lambda>k. (n - k) mod n"])
      (simp_all add: inv)
qed

lemma hermitian_transform_real:
  assumes "hermitian P v" "j < P"
  shows "Im (c2c P forward v fct ! j) = 0"
proof -
  let ?w = "unityRoot P forward" and ?u = "unityRoot P (\<not> forward)"
  let ?S = "\<Sum>k<P. v ! k * ?w ^ (k * j)"
  have "cnj ?S = (\<Sum>k<P. cnj (v ! k) * ?u ^ (k * j))"
    by (simp add: cnj_unityRoot)
  also have "\<dots> = (\<Sum>k<P. v ! ((P - k) mod P) * ?w ^ (((P - k) mod P) * j))"
    using assms(1) by (intro sum.cong refl) (simp add: hermitian_def unityRoot_mirror)
  also have "\<dots> = ?S" by (rule mirror_bij[of "\<lambda>k. v ! k * ?w ^ (k * j)"])
  finally have "cnj ?S = ?S" .
  then have "Im ?S = 0" by (metis Reals_cnj_iff complex_is_Real_iff)
  then show ?thesis using assms(2) by (simp add: c2c_nth)
qed

lemma transform_of_real_hermitian:
  assumes "\<forall>j < P. Im (xs ! j) = 0"
  shows "hermitian P (c2c P forward xs fct)"
  unfolding hermitian_def
proof (intro allI impI)
  fix k assume k: "k < P"
  let ?w = "unityRoot P forward" and ?u = "unityRoot P (\<not> forward)"
  have real: "cnj (xs ! j) = xs ! j" if "j < P" for j
    using assms that by (simp add: complex_eq_iff)
  have "cnj (c2c P forward xs fct ! k) = of_real fct * (\<Sum>j<P. cnj (xs ! j) * ?u ^ (j * k))"
    using k by (simp add: c2c_nth cnj_unityRoot)
  also have "(\<Sum>j<P. cnj (xs ! j) * ?u ^ (j * k)) = (\<Sum>j<P. xs ! j * ?w ^ (j * ((P - k) mod P)))"
    using unityRoot_mirror[OF k, of forward] real
    by (intro sum.cong refl) (simp add: mult.commute)
  also have "of_real fct * \<dots> = c2c P forward xs fct ! ((P - k) mod P)"
    using k by (simp add: c2c_nth)
  finally show "c2c P forward xs fct ! ((P - k) mod P) = cnj (c2c P forward xs fct ! k)" by simp
qed

lemma pileColumn_real:
  fixes wn halfdt nkT mass scale :: real and r :: rng and col :: "real list" and P :: nat
  assumes "length col = P" "j < P"
  shows "Im (fst (pileColumn P scale wn halfdt nkT c1_0 c3_0 mass (col, r)) ! j) = 0"
proof -
  let ?xs = "map (\<lambda>x. Complex (scale * x) 0) col"
  let ?v = "c2c P True ?xs 1"
  have "\<forall>j < P. Im (?xs ! j) = 0" using assms(1) by simp
  then have h: "hermitian P ?v" by (rule transform_of_real_hermitian)
  have len: "length ?v = P" using assms(1) by (simp add: length_c2c)
  have h': "hermitian P (fst (pileModes P wn halfdt nkT c1_0 c3_0 mass (?v, r)))"
    using len h by (rule pileModes_hermitian)
  have "fst (pileColumn P scale wn halfdt nkT c1_0 c3_0 mass (col, r)) =
      c2c P False (fst (pileModes P wn halfdt nkT c1_0 c3_0 mass (?v, r))) 1"
    by (simp add: pileColumn_def Let_def split_beta)
  then show ?thesis using hermitian_transform_real[OF h' assms(2)] by simp
qed

lemma pileModeStep_rng_nyquist:
  "isNyquist P k \<Longrightarrow>
   snd (pileModeStep P wn halfdt nkT mass k (v, r)) = (\<lambda>n. r (n + 1))"
  by (simp add: pileModeStep_eq Let_def)

lemma pileModes_rng:
  assumes "0 < P"
  shows "snd (pileModes P wn halfdt nkT c1_0 c3_0 mass (v, r)) = (\<lambda>n. r (n + P))"
proof (cases "even P")
  case False
  have nn: "\<forall>k \<in> set [1..<P div 2 + 1]. \<not> isNyquist P k"
    using False by (simp add: isNyquist_def)
  have P: "P = 2 * (P div 2) + 1" using False by (simp add: odd_two_times_div_two_succ)
  have "snd (pileModes P wn halfdt nkT c1_0 c3_0 mass (v, r)) =
      (\<lambda>n. r (Suc (n + 2 * (P div 2 + 1 - 1))))"
    unfolding pileModes_fold fold_pileModeStep_rng[OF nn] by simp
  also have "\<dots> = (\<lambda>n. r (n + P))"
    by (intro ext arg_cong[where f = r]) (use P in linarith)
  finally show ?thesis .
next
  case True
  define m where "m = P div 2"
  have P: "P = 2 * m" "1 \<le> m" using True assms by (auto simp: m_def)
  let ?step = "pileModeStep P wn halfdt nkT mass"
  let ?s0 = "(v[0 := Complex (Re (v ! 0) * c1_0 + c3_0 * r 0) (Im (v ! 0))], \<lambda>n. r (Suc n))"
  define s1 where "s1 = fold ?step [1..<m] ?s0"
  have split: "[1..<m + 1] = [1..<m] @ [m]" using P(2) by simp
  have nn: "\<forall>k \<in> set [1..<m]. \<not> isNyquist P k" by (simp add: isNyquist_def m_def)
  have r1: "snd s1 = (\<lambda>n. r (Suc (n + 2 * (m - 1))))"
    unfolding s1_def fold_pileModeStep_rng[OF nn] by simp
  have ny: "isNyquist P m" using True by (simp add: isNyquist_def m_def)
  have "snd (pileModes P wn halfdt nkT c1_0 c3_0 mass (v, r)) = snd (?step m s1)"
    unfolding pileModes_fold m_def[symmetric] split s1_def by simp
  also have "\<dots> = (\<lambda>n. snd s1 (n + 1))"
    using pileModeStep_rng_nyquist[OF ny, of wn halfdt nkT mass "fst s1" "snd s1"] by simp
  also have "\<dots> = (\<lambda>n. r (n + P))"
    unfolding r1 by (intro ext arg_cong[where f = r]) (use P in linarith)
  finally show ?thesis .
qed

lemma pileModes_closed_form:
  fixes wn halfdt nkT mass c1_0 c3_0 :: real and r :: rng and v :: "complex list" and P :: nat
  assumes len: "length v = P" and P: "0 < P"
  shows "pileModes P wn halfdt nkT c1_0 c3_0 mass (v, r) =
     (map (thermostattedMode P wn halfdt nkT c1_0 c3_0 mass v r) [0..<P], \<lambda>n. r (n + P))"
proof -
  have "fst (pileModes P wn halfdt nkT c1_0 c3_0 mass (v, r)) =
      map (thermostattedMode P wn halfdt nkT c1_0 c3_0 mass v r) [0..<P]"
  proof (rule nth_equalityI)
    show "length (fst (pileModes P wn halfdt nkT c1_0 c3_0 mass (v, r))) =
        length (map (thermostattedMode P wn halfdt nkT c1_0 c3_0 mass v r) [0..<P])"
      using len by (simp add: length_pileModes)
    fix k assume "k < length (fst (pileModes P wn halfdt nkT c1_0 c3_0 mass (v, r)))"
    then have kP: "k < P" using len by (simp add: length_pileModes)
    consider "k = 0" | "1 \<le> k" "k \<le> P div 2" | "P div 2 < k" by linarith
    then have "fst (pileModes P wn halfdt nkT c1_0 c3_0 mass (v, r)) ! k =
        thermostattedMode P wn halfdt nkT c1_0 c3_0 mass v r k"
    proof cases
      case 1
      then show ?thesis
        using pileModes_centroid[OF len P, of wn halfdt nkT c1_0 c3_0 mass r]
        by (simp add: thermostattedMode_def)
    next
      case 2
      then show ?thesis
        using pileModes_mode(1)[OF len 2, of wn halfdt nkT c1_0 c3_0 mass r]
        by (simp add: thermostattedMode_def)
    next
      case 3
      define k' where "k' = P - k"
      have k': "1 \<le> k'" "k' \<le> P div 2" "k' < P - k'" "P - k' = k"
        using 3 kP by (auto simp: k'_def)
      have "fst (pileModes P wn halfdt nkT c1_0 c3_0 mass (v, r)) ! (P - k') =
          v ! (P - k') * of_real (pileC1 wn halfdt P k') +
            Complex (pileC3 wn halfdt nkT mass P k' * r (2 * k' - 1))
              (- (pileC3 wn halfdt nkT mass P k' * r (2 * k')))"
        using pileModes_mode(2)[OF len k'(1,2,3)] .
      then show ?thesis
        unfolding k'(4) using 3 by (simp add: thermostattedMode_def k'_def)
    qed
    then show "fst (pileModes P wn halfdt nkT c1_0 c3_0 mass (v, r)) ! k =
        map (thermostattedMode P wn halfdt nkT c1_0 c3_0 mass v r) [0..<P] ! k"
      using kP by simp
  qed
  then show ?thesis using pileModes_rng[OF P, of wn halfdt nkT c1_0 c3_0 mass v r]
    by (simp add: prod_eq_iff)
qed

lemma pileColumn_closed_form:
  fixes wn halfdt nkT mass c1_0 c3_0 scale :: real and r :: rng and col :: "real list"
  assumes "length col = P" "0 < P"
  shows "pileColumn P scale wn halfdt nkT c1_0 c3_0 mass (col, r) =
     (c2c P False
        (map (thermostattedMode P wn halfdt nkT c1_0 c3_0 mass
                (c2c P True (map (\<lambda>x. Complex (scale * x) 0) col) 1) r) [0..<P]) 1,
      \<lambda>n. r (n + P))"
proof -
  have "length (c2c P True (map (\<lambda>x. Complex (scale * x) 0) col) 1) = P"
    using assms(1) by (simp add: length_c2c)
  from pileModes_closed_form[OF this assms(2)] show ?thesis
    by (simp add: pileColumn_def Let_def)
qed

lemma thermostatComponent_self:
  fixes wn halfdt nkT mass c1_0 c3_0 scale :: real and r :: rng
  assumes "shaped P N vel" "p < N" "c < 3" "0 < P"
  shows "readColumn (fst (thermostatComponent P scale wn halfdt nkT c1_0 c3_0 mass p c (vel, r))) p c P
           = thermostattedColumn P scale wn halfdt nkT c1_0 c3_0 mass (readColumn vel p c P) r"
proof -
  have l: "length (readColumn vel p c P) = P" by simp
  show ?thesis
    unfolding thermostatComponent_def Let_def split_conv pileColumn_closed_form[OF l assms(4)]
      fst_conv thermostattedColumn_def
    using assms(1,2,3) by (simp add: readColumn_writeColumn_same)
qed

lemma thermostatComponent_rng:
  fixes wn halfdt nkT mass c1_0 c3_0 scale :: real and r :: rng
  assumes "0 < P"
  shows "snd (thermostatComponent P scale wn halfdt nkT c1_0 c3_0 mass p c (vel, r)) = (\<lambda>n. r (n + P))"
proof -
  have l: "length (readColumn vel p c P) = P" by simp
  show ?thesis
    unfolding thermostatComponent_def Let_def split_conv pileColumn_closed_form[OF l assms]
    by simp
qed

lemma thermostatComponent_other:
  "p' \<noteq> p \<or> c' \<noteq> c \<Longrightarrow> c < 3 \<Longrightarrow> c' < 3 \<Longrightarrow>
   readColumn (fst (thermostatComponent n scale wn halfdt nkT c1_0 c3_0 mass p c (vel, r))) p' c' P
     = readColumn vel p' c' P"
  by (simp add: thermostatComponent_def split_beta readColumn_writeColumn_other)

lemma thermostatComponent_shaped:
  "shaped P N vel \<Longrightarrow>
   shaped P N (fst (thermostatComponent n scale wn halfdt nkT c1_0 c3_0 mass p c (vel, r)))"
  by (simp add: thermostatComponent_def split_beta shaped_writeColumn)

lemma fold_counted:
  fixes S :: "'x \<Rightarrow> 'a \<times> rng \<Rightarrow> 'a \<times> rng"
  assumes "distinct xs"
    and inv: "\<And>x a r. I a \<Longrightarrow> I (fst (S x (a, r)))"
    and draws: "\<And>x a r. I a \<Longrightarrow> x \<in> set xs \<Longrightarrow> snd (S x (a, r)) = (\<lambda>n. r (n + w x))"
    and other: "\<And>x a r. I a \<Longrightarrow> x \<in> set xs \<Longrightarrow> x \<noteq> y \<Longrightarrow> proj (fst (S x (a, r))) = proj a"
    and self: "\<And>a r. I a \<Longrightarrow> y \<in> set xs \<Longrightarrow> proj (fst (S y (a, r))) = F (proj a) r"
    and "I a"
  shows "I (fst (fold S xs (a, r))) \<and>
         snd (fold S xs (a, r)) = (\<lambda>n. r (n + sum_list (map w xs))) \<and>
         proj (fst (fold S xs (a, r))) =
           (if y \<in> set xs
            then F (proj a) (\<lambda>n. r (n + sum_list (map w (takeWhile (\<lambda>x. x \<noteq> y) xs))))
            else proj a)"
  using assms(1,6) draws other self
proof (induction xs arbitrary: a r)
  case Nil
  then show ?case by simp
next
  case (Cons x xs)
  obtain a1 r1 where s1: "S x (a, r) = (a1, r1)" by (cases "S x (a, r)")
  have Ia1: "I a1" using inv[OF Cons.prems(2), of x r] by (simp add: s1)
  have r1: "r1 = (\<lambda>n. r (n + w x))" using Cons.prems(3)[OF Cons.prems(2), of x r] by (simp add: s1)
  have d: "distinct xs" and nx: "x \<notin> set xs" using Cons.prems(1) by simp_all
  have IH: "I (fst (fold S xs (a1, r1))) \<and>
         snd (fold S xs (a1, r1)) = (\<lambda>n. r1 (n + sum_list (map w xs))) \<and>
         proj (fst (fold S xs (a1, r1))) =
           (if y \<in> set xs
            then F (proj a1) (\<lambda>n. r1 (n + sum_list (map w (takeWhile (\<lambda>x. x \<noteq> y) xs))))
            else proj a1)"
    using Cons.IH[OF d Ia1, of r1] Cons.prems(3,4,5) by simp
  have shift: "(\<lambda>n. r1 (n + k)) = (\<lambda>n. r (n + (w x + k)))" for k
    unfolding r1 by (intro ext arg_cong[where f = r]) linarith
  show ?case
  proof (cases "y = x")
    case True
    have "proj a1 = F (proj a) r"
      using Cons.prems(5)[OF Cons.prems(2), of r] True by (simp add: s1)
    then show ?thesis using IH True nx by (simp add: s1 shift)
  next
    case False
    have "proj a1 = proj a"
      using Cons.prems(4)[OF Cons.prems(2), of x r] False by (simp add: s1)
    then show ?thesis using IH False by (simp add: s1 shift)
  qed
qed

lemma takeWhile_upt: "y < n \<Longrightarrow> takeWhile (\<lambda>x. x \<noteq> y) [0..<n] = [0..<y]"
proof (induction n)
  case 0
  then show ?case by simp
next
  case (Suc n)
  show ?case
  proof (cases "y = n")
    case True
    have "takeWhile (\<lambda>x. x \<noteq> n) ([0..<n] @ [n]) = [0..<n] @ takeWhile (\<lambda>x. x \<noteq> n) [n]"
      by (rule takeWhile_append2) simp
    then show ?thesis using True by simp
  next
    case False
    then have y: "y < n" using Suc.prems by simp
    then have "y \<in> set [0..<n]" by simp
    then have "takeWhile (\<lambda>x. x \<noteq> y) ([0..<n] @ [n]) = takeWhile (\<lambda>x. x \<noteq> y) [0..<n]"
      by (intro takeWhile_append1[where x = y]) simp_all
    then show ?thesis using Suc.IH[OF y] by simp
  qed
qed

lemma thermostatParticle:
  fixes wn halfdt nkT mass c1_0 c3_0 scale :: real and r :: rng
  assumes "shaped P N vel" "p < N" "0 < P"
  shows "shaped P N (fst (fold (thermostatComponent P scale wn halfdt nkT c1_0 c3_0 mass p)
                        [0..<3] (vel, r)))"
    and "snd (fold (thermostatComponent P scale wn halfdt nkT c1_0 c3_0 mass p) [0..<3] (vel, r))
           = (\<lambda>n. r (n + 3 * P))"
    and "c < 3 \<Longrightarrow>
         readColumn (fst (fold (thermostatComponent P scale wn halfdt nkT c1_0 c3_0 mass p)
                        [0..<3] (vel, r))) p c P
           = thermostattedColumn P scale wn halfdt nkT c1_0 c3_0 mass (readColumn vel p c P)
               (\<lambda>n. r (n + c * P))"
    and "p' \<noteq> p \<Longrightarrow> c' < 3 \<Longrightarrow>
         readColumn (fst (fold (thermostatComponent P scale wn halfdt nkT c1_0 c3_0 mass p)
                        [0..<3] (vel, r))) p' c' P = readColumn vel p' c' P"
proof -
  let ?S = "thermostatComponent P scale wn halfdt nkT c1_0 c3_0 mass p"
  have sum3: "sum_list (map (\<lambda>_. P) [0..<3]) = 3 * P" by (simp add: sum_list_triv)
  have inv: "\<And>x a r. shaped P N a \<Longrightarrow> shaped P N (fst (?S x (a, r)))"
    by (rule thermostatComponent_shaped)
  have draws: "\<And>x a r. shaped P N a \<Longrightarrow> x \<in> set [0..<3] \<Longrightarrow>
      snd (?S x (a, r)) = (\<lambda>n. r (n + P))"
    using assms(3) by (simp add: thermostatComponent_rng)
  have gen: "shaped P N (fst (fold ?S [0..<3] (vel, r))) \<and>
         snd (fold ?S [0..<3] (vel, r)) = (\<lambda>n. r (n + sum_list (map (\<lambda>_. P) [0..<3]))) \<and>
         proj (fst (fold ?S [0..<3] (vel, r))) =
           (if y \<in> set [0..<3]
            then F (proj vel) (\<lambda>n. r (n + sum_list (map (\<lambda>_. P) (takeWhile (\<lambda>x. x \<noteq> y) [0..<3]))))
            else proj vel)"
    if "\<And>x a r. shaped P N a \<Longrightarrow> x \<in> set [0..<3] \<Longrightarrow> x \<noteq> y \<Longrightarrow> proj (fst (?S x (a, r))) = proj a"
      and "\<And>a r. shaped P N a \<Longrightarrow> y \<in> set [0..<3] \<Longrightarrow> proj (fst (?S y (a, r))) = F (proj a) r"
    for proj :: "vec3 list list \<Rightarrow> real list" and F y
  proof (rule fold_counted[where I = "shaped P N" and w = "\<lambda>_. P" and S = ?S])
    show "distinct [0..<3::nat]" by simp
    show "\<And>x a r. shaped P N a \<Longrightarrow> shaped P N (fst (?S x (a, r)))" by (rule inv)
    show "\<And>x a r. shaped P N a \<Longrightarrow> x \<in> set [0..<3] \<Longrightarrow> snd (?S x (a, r)) = (\<lambda>n. r (n + P))"
      by (rule draws)
    show "\<And>x a r. shaped P N a \<Longrightarrow> x \<in> set [0..<3] \<Longrightarrow> x \<noteq> y \<Longrightarrow>
        proj (fst (?S x (a, r))) = proj a" by (rule that(1))
    show "\<And>a r. shaped P N a \<Longrightarrow> y \<in> set [0..<3] \<Longrightarrow> proj (fst (?S y (a, r))) = F (proj a) r"
      by (rule that(2))
    show "shaped P N vel" by fact
  qed
  have self: "shaped P N (fst (fold ?S [0..<3] (vel, r))) \<and>
         snd (fold ?S [0..<3] (vel, r)) = (\<lambda>n. r (n + sum_list (map (\<lambda>_. P) [0..<3]))) \<and>
         readColumn (fst (fold ?S [0..<3] (vel, r))) p c P =
           (if c \<in> set [0..<3]
            then thermostattedColumn P scale wn halfdt nkT c1_0 c3_0 mass (readColumn vel p c P)
                   (\<lambda>n. r (n + sum_list (map (\<lambda>_. P) (takeWhile (\<lambda>x. x \<noteq> c) [0..<3]))))
            else readColumn vel p c P)" if c: "c < 3" for c
  proof (rule gen[where proj = "\<lambda>a. readColumn a p c P"
        and F = "thermostattedColumn P scale wn halfdt nkT c1_0 c3_0 mass" and y = c])
    show "\<And>x a r. shaped P N a \<Longrightarrow> x \<in> set [0..<3] \<Longrightarrow> x \<noteq> c \<Longrightarrow>
        readColumn (fst (?S x (a, r))) p c P = readColumn a p c P"
      using c by (simp add: thermostatComponent_other)
    show "\<And>a r. shaped P N a \<Longrightarrow> c \<in> set [0..<3] \<Longrightarrow>
        readColumn (fst (?S c (a, r))) p c P =
          thermostattedColumn P scale wn halfdt nkT c1_0 c3_0 mass (readColumn a p c P) r"
      using assms(2,3) c by (simp add: thermostatComponent_self)
  qed
  from self[of 0] show "shaped P N (fst (fold ?S [0..<3] (vel, r)))" by simp
  from self[of 0] show "snd (fold ?S [0..<3] (vel, r)) = (\<lambda>n. r (n + 3 * P))"
    unfolding sum3 by simp
  show "readColumn (fst (fold ?S [0..<3] (vel, r))) p c P
           = thermostattedColumn P scale wn halfdt nkT c1_0 c3_0 mass (readColumn vel p c P)
               (\<lambda>n. r (n + c * P))" if c: "c < 3"
  proof -
    have "sum_list (map (\<lambda>_. P) (takeWhile (\<lambda>x. x \<noteq> c) [0..<3])) = c * P"
      unfolding takeWhile_upt[OF c] by (simp add: sum_list_triv)
    then show ?thesis using self[OF c] c by simp
  qed
  show "readColumn (fst (fold ?S [0..<3] (vel, r))) p' c' P = readColumn vel p' c' P"
    if "p' \<noteq> p" "c' < 3"
  proof -
    have "shaped P N (fst (fold ?S [0..<3] (vel, r))) \<and>
         snd (fold ?S [0..<3] (vel, r)) = (\<lambda>n. r (n + sum_list (map (\<lambda>_. P) [0..<3]))) \<and>
         readColumn (fst (fold ?S [0..<3] (vel, r))) p' c' P =
           (if 3 \<in> set [0..<3]
            then (\<lambda>col r. col) (readColumn vel p' c' P)
                   (\<lambda>n. r (n + sum_list (map (\<lambda>_. P) (takeWhile (\<lambda>x. x \<noteq> 3) [0..<3]))))
            else readColumn vel p' c' P)"
    proof (rule gen[where proj = "\<lambda>a. readColumn a p' c' P" and F = "\<lambda>col r. col" and y = 3])
      show "\<And>x a r. shaped P N a \<Longrightarrow> x \<in> set [0..<3] \<Longrightarrow> x \<noteq> 3 \<Longrightarrow>
          readColumn (fst (?S x (a, r))) p' c' P = readColumn a p' c' P"
        using that by (simp add: thermostatComponent_other)
      show "\<And>a r. shaped P N a \<Longrightarrow> 3 \<in> set [0..<3] \<Longrightarrow>
          readColumn (fst (?S 3 (a, r))) p' c' P = readColumn a p' c' P"
        by simp
    qed
    then show ?thesis by simp
  qed
qed

lemma draws_sum:
  "sum_list (map (\<lambda>j. if getParticleMass sys j = 0 then 0 else 3 * P) [0..<p]) =
     3 * P * length (filter (\<lambda>j. getParticleMass sys j \<noteq> 0) [0..<p])"
  by (induction p) simp_all

lemma thermostatParticle_shaped:
  "shaped P N (fst s) \<Longrightarrow>
   shaped P N (fst (fold (thermostatComponent n scale wn halfdt nkT c1_0 c3_0 mass p) cs s))"
proof (induction cs arbitrary: s)
  case Nil
  then show ?case by simp
next
  case (Cons c cs)
  obtain a r where s: "s = (a, r)" by (cases s)
  have "shaped P N (fst (thermostatComponent n scale wn halfdt nkT c1_0 c3_0 mass p c s))"
    using Cons.prems unfolding s by (simp add: thermostatComponent_shaped)
  from Cons.IH[OF this] show ?case by simp
qed

lemma thermostatClosed_column:
  fixes r :: rng
  assumes "getApplyThermostat integ" "shaped P N vel" "0 < P"
  shows "p < N \<Longrightarrow> c < 3 \<Longrightarrow> getParticleMass sys p \<noteq> 0 \<Longrightarrow>
         readColumn (fst (thermostatClosed ext sys integ P N (vel, r))) p c P =
           thermostattedVelocities ext sys integ P p (readColumn vel p c P)
             (\<lambda>n. r (n + drawsBefore sys P p c))"
    and "snd (thermostatClosed ext sys integ P N (vel, r)) =
           (\<lambda>n. r (n + drawsBefore sys P N 0))"
proof -
  define halfdt where "halfdt = 0.5 * getStepSize integ"
  define scale where "scale = 1 / sqrt (real P)"
  define nkT where "nkT = real P * BOLTZ ext * getTemperature integ"
  define wn where "wn = 2 * nkT / hbar ext"
  define c1_0 where "c1_0 = exp (- halfdt * getFriction integ)"
  define c3 where "c3 = (\<lambda>j. sqrt (1 - c1_0 * c1_0) * sqrt (nkT / getParticleMass sys j))"
  define S where "S = (\<lambda>particle (velr :: vec3 list list \<times> rng).
      if getParticleMass sys particle = 0 then velr
      else fold (thermostatComponent P scale wn halfdt nkT c1_0 (c3 particle)
                   (getParticleMass sys particle) particle) [0..<3] velr)"
  define w where "w = (\<lambda>j. if getParticleMass sys j = 0 then 0 else 3 * P)"
  have tc: "thermostatClosed ext sys integ P N (vel, r) = fold S [0..<N] (vel, r)"
    unfolding thermostatClosed_def Let_def S_def scale_def wn_def nkT_def c1_0_def halfdt_def
      c3_def using assms(1) by simp
  have inv: "\<And>x a r. shaped P N a \<Longrightarrow> shaped P N (fst (S x (a, r)))"
    by (simp add: S_def thermostatParticle_shaped)
  have draws: "\<And>x a r. shaped P N a \<Longrightarrow> x \<in> set [0..<N] \<Longrightarrow>
      snd (S x (a, r)) = (\<lambda>n. r (n + w x))"
    using assms(3) by (simp add: S_def w_def thermostatParticle(2))
  have gen: "shaped P N (fst (fold S [0..<N] (vel, r))) \<and>
         snd (fold S [0..<N] (vel, r)) = (\<lambda>n. r (n + sum_list (map w [0..<N]))) \<and>
         proj (fst (fold S [0..<N] (vel, r))) =
           (if y \<in> set [0..<N]
            then F (proj vel) (\<lambda>n. r (n + sum_list (map w (takeWhile (\<lambda>x. x \<noteq> y) [0..<N]))))
            else proj vel)"
    if "\<And>x a r. shaped P N a \<Longrightarrow> x \<in> set [0..<N] \<Longrightarrow> x \<noteq> y \<Longrightarrow> proj (fst (S x (a, r))) = proj a"
      and "\<And>a r. shaped P N a \<Longrightarrow> y \<in> set [0..<N] \<Longrightarrow> proj (fst (S y (a, r))) = F (proj a) r"
    for proj :: "vec3 list list \<Rightarrow> real list" and F y
  proof (rule fold_counted[where I = "shaped P N" and w = w and S = S])
    show "distinct [0..<N]" by simp
    show "\<And>x a r. shaped P N a \<Longrightarrow> shaped P N (fst (S x (a, r)))" by (rule inv)
    show "\<And>x a r. shaped P N a \<Longrightarrow> x \<in> set [0..<N] \<Longrightarrow> snd (S x (a, r)) = (\<lambda>n. r (n + w x))"
      by (rule draws)
    show "\<And>x a r. shaped P N a \<Longrightarrow> x \<in> set [0..<N] \<Longrightarrow> x \<noteq> y \<Longrightarrow>
        proj (fst (S x (a, r))) = proj a" by (rule that(1))
    show "\<And>a r. shaped P N a \<Longrightarrow> y \<in> set [0..<N] \<Longrightarrow> proj (fst (S y (a, r))) = F (proj a) r"
      by (rule that(2))
    show "shaped P N vel" by fact
  qed
  have wsum: "sum_list (map w [0..<n]) = drawsBefore sys P n 0" for n
    unfolding w_def draws_sum drawsBefore_def by simp
  show "snd (thermostatClosed ext sys integ P N (vel, r)) = (\<lambda>n. r (n + drawsBefore sys P N 0))"
  proof -
    have "shaped P N (fst (fold S [0..<N] (vel, r))) \<and>
         snd (fold S [0..<N] (vel, r)) = (\<lambda>n. r (n + sum_list (map w [0..<N]))) \<and>
         readColumn (fst (fold S [0..<N] (vel, r))) N 0 P =
           (if N \<in> set [0..<N]
            then (\<lambda>col r. col) (readColumn vel N 0 P)
                   (\<lambda>n. r (n + sum_list (map w (takeWhile (\<lambda>x. x \<noteq> N) [0..<N]))))
            else readColumn vel N 0 P)"
    proof (rule gen[where proj = "\<lambda>a. readColumn a N 0 P" and F = "\<lambda>col r. col" and y = N])
      show "\<And>x a r. shaped P N a \<Longrightarrow> x \<in> set [0..<N] \<Longrightarrow> x \<noteq> N \<Longrightarrow>
          readColumn (fst (S x (a, r))) N 0 P = readColumn a N 0 P"
        using assms(3) by (simp add: S_def thermostatParticle(4))
      show "\<And>a r. shaped P N a \<Longrightarrow> N \<in> set [0..<N] \<Longrightarrow>
          readColumn (fst (S N (a, r))) N 0 P = readColumn a N 0 P"
        by simp
    qed
    then show ?thesis unfolding tc wsum by simp
  qed
  show "readColumn (fst (thermostatClosed ext sys integ P N (vel, r))) p c P =
           thermostattedVelocities ext sys integ P p (readColumn vel p c P)
             (\<lambda>n. r (n + drawsBefore sys P p c))"
    if p: "p < N" and c: "c < 3" and m: "getParticleMass sys p \<noteq> 0"
  proof -
    let ?F = "\<lambda>col r. thermostattedColumn P scale wn halfdt nkT c1_0 (c3 p)
        (getParticleMass sys p) col (\<lambda>n. r (n + c * P))"
    have "shaped P N (fst (fold S [0..<N] (vel, r))) \<and>
         snd (fold S [0..<N] (vel, r)) = (\<lambda>n. r (n + sum_list (map w [0..<N]))) \<and>
         readColumn (fst (fold S [0..<N] (vel, r))) p c P =
           (if p \<in> set [0..<N]
            then ?F (readColumn vel p c P)
                   (\<lambda>n. r (n + sum_list (map w (takeWhile (\<lambda>x. x \<noteq> p) [0..<N]))))
            else readColumn vel p c P)"
    proof (rule gen[where proj = "\<lambda>a. readColumn a p c P" and F = ?F and y = p])
      show "\<And>x a r. shaped P N a \<Longrightarrow> x \<in> set [0..<N] \<Longrightarrow> x \<noteq> p \<Longrightarrow>
          readColumn (fst (S x (a, r))) p c P = readColumn a p c P"
        using assms(3) c by (simp add: S_def thermostatParticle(4))
      show "\<And>a r. shaped P N a \<Longrightarrow> p \<in> set [0..<N] \<Longrightarrow>
          readColumn (fst (S p (a, r))) p c P = ?F (readColumn a p c P) r"
        using assms(3) p c m by (simp add: S_def thermostatParticle(3))
    qed
    then have "readColumn (fst (thermostatClosed ext sys integ P N (vel, r))) p c P =
        thermostattedColumn P scale wn halfdt nkT c1_0 (c3 p) (getParticleMass sys p)
          (readColumn vel p c P) (\<lambda>n. r (n + c * P + drawsBefore sys P p 0))"
      unfolding tc takeWhile_upt[OF p] wsum using p by simp
    moreover have "(\<lambda>n. r (n + c * P + drawsBefore sys P p 0)) = (\<lambda>n. r (n + drawsBefore sys P p c))"
      by (intro ext arg_cong[where f = r]) (simp add: drawsBefore_def algebra_simps)
    ultimately show ?thesis
      unfolding thermostattedVelocities_def Let_def halfdt_def[symmetric] nkT_def[symmetric]
        wn_def[symmetric] c1_0_def[symmetric] scale_def[symmetric] c3_def
      by simp
  qed
qed

lemma pileC1_le_1:
  assumes "0 \<le> wn" "0 \<le> halfdt" "k \<le> P div 2"
  shows "pileC1 wn halfdt P k \<le> 1"
proof (cases "P = 0")
  case True
  then show ?thesis using assms by (simp add: pileC1_def modeFrequency_def)
next
  case False
  have "real k \<le> real P" using assms(3) by simp
  then have "real k * pi \<le> real P * pi" by (intro mult_right_mono) simp_all
  then have "real k * pi / real P \<le> pi" using False by (simp add: field_simps)
  moreover have "0 \<le> real k * pi / real P" by simp
  ultimately have "0 \<le> sin (real k * pi / real P)" by (intro sin_ge_zero)
  then have "0 \<le> modeFrequency wn P k" using assms(1) by (simp add: modeFrequency_def)
  then have "0 \<le> modeFrequency wn P k * halfdt" using assms(2) by simp
  then have "- 2 * modeFrequency wn P k * halfdt \<le> 0" by (simp add: mult.commute)
  then show ?thesis unfolding pileC1_def by (simp only: exp_le_one_iff)
qed

text \<open>
  Claim C2.  In the closed-path PILE thermostat (with \<open>\<omega>\<^sub>n\<close>, \<open>\<Delta>t / 2\<close> and \<open>n k\<^sub>B T\<close> not
  negative and a positive mass), for every internal mode \<open>k\<close> from 1 to
  \<open>P div 2\<close> the mode becomes \<open>v\<^sub>k c1 + (c3 \<xi>\<^sub>1 + i c3 \<xi>\<^sub>2)\<close> with \<open>c1 = exp (- 2 \<omega>\<^sub>k \<Delta>t / 2)\<close> and
  \<open>c3 = c2 sqrt (n k\<^sub>B T / m)\<close>, where \<open>c2 = sqrt ((1 - c1\<^sup>2) / 2)\<close> carries the factor \<open>sqrt 2\<close>
  exactly at the Nyquist bin (\<open>pileC2\<close>, \<open>isNyquist\<close>); at the Nyquist bin the imaginary
  noise is zero; whenever \<open>k < P - k\<close> the mirror mode \<open>P - k\<close> gets the same \<open>c1\<close> and the
  conjugate noise.  \<open>\<xi>\<^sub>1\<close> and \<open>\<xi>\<^sub>2\<close> are draws \<open>2 k - 1\<close> and \<open>2 k\<close> of the generator (draw 0
  goes to the centroid).  A Hermitian mode vector stays Hermitian, and the thermostat of
  a real velocity column transforms back to real values.  The thermostat block applies
  exactly this update: for a particle of positive mass and each component, with
  non-negative step size, friction and temperature and positive constants, the velocity
  column after the block is the rescaled real part of the back transform of the modes so
  updated (\<open>thermostattedVelocities\<close>, \<open>thermostattedMode\<close>), with \<open>\<omega>\<^sub>n = 2 n k\<^sub>B T / \<hbar>\<close>, half the
  step size for \<open>\<Delta>t / 2\<close> and the draws the generator holds when the block reaches that
  column (\<open>drawsBefore\<close>: \<open>P\<close> draws per column); then every \<open>c1\<close> is at most 1, so the
  square roots are taken of non-negative numbers.
\<close>

theorem closed_path_pile_thermostat:
  fixes wn halfdt nkT mass scale c1_0 c3_0 :: real and r :: rng and v :: "complex list"
    and col :: "real list" and P :: nat
  assumes "length v = P" and "length col = P"
    and "0 \<le> wn" and "0 \<le> halfdt" and "0 \<le> nkT" and "0 < mass"
  shows "(\<forall>k. 1 \<le> k \<and> k \<le> P div 2 \<longrightarrow>
           fst (pileModes P wn halfdt nkT c1_0 c3_0 mass (v, r)) ! k =
             v ! k * of_real (pileC1 wn halfdt P k) +
               Complex (pileC3 wn halfdt nkT mass P k * r (2 * k - 1))
                 (if isNyquist P k then 0 else pileC3 wn halfdt nkT mass P k * r (2 * k)) \<and>
           (k < P - k \<longrightarrow>
              fst (pileModes P wn halfdt nkT c1_0 c3_0 mass (v, r)) ! (P - k) =
                v ! (P - k) * of_real (pileC1 wn halfdt P k) +
                  Complex (pileC3 wn halfdt nkT mass P k * r (2 * k - 1))
                    (- (pileC3 wn halfdt nkT mass P k * r (2 * k))))) \<and>
         (hermitian P v \<longrightarrow>
            hermitian P (fst (pileModes P wn halfdt nkT c1_0 c3_0 mass (v, r)))) \<and>
         (\<forall>j < P. Im (fst (pileColumn P scale wn halfdt nkT c1_0 c3_0 mass (col, r)) ! j) = 0) \<and>
         (getApplyThermostat integ \<and> shaped P N vel \<and> 0 < P \<and> p < N \<and> c < 3 \<and>
          0 < getParticleMass sys p \<and> 0 \<le> getStepSize integ \<and> 0 \<le> getFriction integ \<and>
          0 \<le> getTemperature integ \<and> 0 < BOLTZ ext \<and> 0 < AVOGADRO ext \<longrightarrow>
            readColumn (fst (thermostatClosed ext sys integ P N (vel, r))) p c P =
              thermostattedVelocities ext sys integ P p (readColumn vel p c P)
                (\<lambda>n. r (n + drawsBefore sys P p c)) \<and>
            snd (thermostatClosed ext sys integ P N (vel, r)) =
              (\<lambda>n. r (n + drawsBefore sys P N 0)) \<and>
            (\<forall>k. 1 \<le> k \<and> k \<le> P div 2 \<longrightarrow>
               pileC1 (2 * (real P * BOLTZ ext * getTemperature integ) / hbar ext)
                 (0.5 * getStepSize integ) P k \<le> 1))"
proof (intro conjI allI impI)
  fix k assume k: "1 \<le> k \<and> k \<le> P div 2"
  then show "fst (pileModes P wn halfdt nkT c1_0 c3_0 mass (v, r)) ! k =
             v ! k * of_real (pileC1 wn halfdt P k) +
               Complex (pileC3 wn halfdt nkT mass P k * r (2 * k - 1))
                 (if isNyquist P k then 0 else pileC3 wn halfdt nkT mass P k * r (2 * k))"
    using pileModes_mode(1)[OF assms(1), of k] by blast
  assume "k < P - k"
  then show "fst (pileModes P wn halfdt nkT c1_0 c3_0 mass (v, r)) ! (P - k) =
                v ! (P - k) * of_real (pileC1 wn halfdt P k) +
                  Complex (pileC3 wn halfdt nkT mass P k * r (2 * k - 1))
                    (- (pileC3 wn halfdt nkT mass P k * r (2 * k)))"
    using pileModes_mode(2)[OF assms(1), of k] k by blast
next
  assume "hermitian P v"
  with assms(1) show "hermitian P (fst (pileModes P wn halfdt nkT c1_0 c3_0 mass (v, r)))"
    by (rule pileModes_hermitian)
next
  fix j assume "j < P"
  with assms(2) show "Im (fst (pileColumn P scale wn halfdt nkT c1_0 c3_0 mass (col, r)) ! j) = 0"
    by (rule pileColumn_real)
next
  assume a: "getApplyThermostat integ \<and> shaped P N vel \<and> 0 < P \<and> p < N \<and> c < 3 \<and>
          0 < getParticleMass sys p \<and> 0 \<le> getStepSize integ \<and> 0 \<le> getFriction integ \<and>
          0 \<le> getTemperature integ \<and> 0 < BOLTZ ext \<and> 0 < AVOGADRO ext"
  then have f: "getApplyThermostat integ" "shaped P N vel" "0 < P" "p < N" "c < 3"
    "getParticleMass sys p \<noteq> 0" by simp_all
  show "readColumn (fst (thermostatClosed ext sys integ P N (vel, r))) p c P =
              thermostattedVelocities ext sys integ P p (readColumn vel p c P)
                (\<lambda>n. r (n + drawsBefore sys P p c))"
    by (rule thermostatClosed_column(1)[OF f])
next
  assume a: "getApplyThermostat integ \<and> shaped P N vel \<and> 0 < P \<and> p < N \<and> c < 3 \<and>
          0 < getParticleMass sys p \<and> 0 \<le> getStepSize integ \<and> 0 \<le> getFriction integ \<and>
          0 \<le> getTemperature integ \<and> 0 < BOLTZ ext \<and> 0 < AVOGADRO ext"
  then have f: "getApplyThermostat integ" "shaped P N vel" "0 < P" by simp_all
  show "snd (thermostatClosed ext sys integ P N (vel, r)) =
              (\<lambda>n. r (n + drawsBefore sys P N 0))"
    by (rule thermostatClosed_column(2)[OF f])
next
  fix k
  assume a: "getApplyThermostat integ \<and> shaped P N vel \<and> 0 < P \<and> p < N \<and> c < 3 \<and>
          0 < getParticleMass sys p \<and> 0 \<le> getStepSize integ \<and> 0 \<le> getFriction integ \<and>
          0 \<le> getTemperature integ \<and> 0 < BOLTZ ext \<and> 0 < AVOGADRO ext"
    and k: "1 \<le> k \<and> k \<le> P div 2"
  have "0 < hbar ext" using a by (simp add: hbar_def)
  then have "0 \<le> 2 * (real P * BOLTZ ext * getTemperature integ) / hbar ext" using a by simp
  moreover have "0 \<le> 0.5 * getStepSize integ" using a by simp
  ultimately show "pileC1 (2 * (real P * BOLTZ ext * getTemperature integ) / hbar ext)
                 (0.5 * getStepSize integ) P k \<le> 1"
    using k by (intro pileC1_le_1) simp_all
qed

theorem closed_path_pile_thermostat_witness:
  "fst (pileModes 4 1 1 1 1 1 1 ([1, 2, 3, 4], \<lambda>n. real n)) ! 1 =
      2 * of_real (pileC1 1 1 4 1) + Complex (pileC3 1 1 1 1 4 1 * 1) (pileC3 1 1 1 1 4 1 * 2) \<and>
   fst (pileModes 4 1 1 1 1 1 1 ([1, 2, 3, 4], \<lambda>n. real n)) ! 3 =
      4 * of_real (pileC1 1 1 4 1) + Complex (pileC3 1 1 1 1 4 1 * 1) (- (pileC3 1 1 1 1 4 1 * 2)) \<and>
   fst (pileModes 4 1 1 1 1 1 1 ([1, 2, 3, 4], \<lambda>n. real n)) ! 2 =
      3 * of_real (pileC1 1 1 4 2) + Complex (pileC3 1 1 1 1 4 2 * 3) 0 \<and>
   Im (fst (pileColumn 4 1 1 1 1 1 1 1 ([1, 2, 3, 4], \<lambda>n. real n)) ! 1) = 0 \<and>
   readColumn (fst (thermostatClosed testExternal \<lparr>masses = [1, 0, 2]\<rparr>
       ((testIntegrator 4 False)\<lparr>getApplyThermostat := True\<rparr>) 4 3
       (thermostatWorld, \<lambda>n. real n))) 2 1 4 =
     thermostattedVelocities testExternal \<lparr>masses = [1, 0, 2]\<rparr>
       ((testIntegrator 4 False)\<lparr>getApplyThermostat := True\<rparr>) 4 2 [2, 0, 1, 3]
       (\<lambda>n. real (n + 16)) \<and>
   snd (thermostatClosed testExternal \<lparr>masses = [1, 0, 2]\<rparr>
       ((testIntegrator 4 False)\<lparr>getApplyThermostat := True\<rparr>) 4 3
       (thermostatWorld, \<lambda>n. real n)) = (\<lambda>n. real (n + 24))"
proof -
  have l: "length [1, 2, 3, 4 :: complex] = 4" "length [1, 2, 3, 4 :: real] = 4" by simp_all
  have ph: "(0::real) \<le> 1" "(0::real) < 1" by simp_all
  note t = closed_path_pile_thermostat[OF l ph(1) ph(1) ph(1) ph(2),
      where ?c1_0.0 = 1 and ?c3_0.0 = 1 and r = "\<lambda>n. real n" and scale = 1
      and integ = "(testIntegrator 4 False)\<lparr>getApplyThermostat := True\<rparr>" and N = 3
      and vel = thermostatWorld and p = 2 and c = 1 and sys = "\<lparr>masses = [1, 0, 2]\<rparr>"
      and ext = testExternal]
  from t have m: "\<And>k. 1 \<le> k \<and> k \<le> 4 div 2 \<Longrightarrow>
           fst (pileModes 4 1 1 1 1 1 1 ([1, 2, 3, 4], \<lambda>n. real n)) ! k =
             [1, 2, 3, 4] ! k * of_real (pileC1 1 1 4 k) +
               Complex (pileC3 1 1 1 1 4 k * real (2 * k - 1))
                 (if isNyquist 4 k then 0 else pileC3 1 1 1 1 4 k * real (2 * k)) \<and>
           (k < 4 - k \<longrightarrow>
              fst (pileModes 4 1 1 1 1 1 1 ([1, 2, 3, 4], \<lambda>n. real n)) ! (4 - k) =
                [1, 2, 3, 4] ! (4 - k) * of_real (pileC1 1 1 4 k) +
                  Complex (pileC3 1 1 1 1 4 k * real (2 * k - 1))
                    (- (pileC3 1 1 1 1 4 k * real (2 * k))))"
    by blast
  from t have i: "Im (fst (pileColumn 4 1 1 1 1 1 1 1 ([1, 2, 3, 4], \<lambda>n. real n)) ! 1) = 0"
    by simp
  have idx: "[0..<4] = [0, 1, 2, 3]" "[0..<3] = [0, 1, 2::nat]" "[0..<2] = [0, 1::nat]"
    by (simp_all add: upt_rec)
  have h: "getApplyThermostat ((testIntegrator 4 False)\<lparr>getApplyThermostat := True\<rparr>) \<and>
      shaped 4 3 thermostatWorld \<and> (0::nat) < 4 \<and> (2::nat) < 3 \<and> (1::nat) < 3 \<and>
      0 < getParticleMass \<lparr>masses = [1, 0, 2]\<rparr> 2 \<and>
      0 \<le> getStepSize ((testIntegrator 4 False)\<lparr>getApplyThermostat := True\<rparr>) \<and>
      0 \<le> getFriction ((testIntegrator 4 False)\<lparr>getApplyThermostat := True\<rparr>) \<and>
      0 \<le> getTemperature ((testIntegrator 4 False)\<lparr>getApplyThermostat := True\<rparr>) \<and>
      0 < BOLTZ testExternal \<and> 0 < AVOGADRO testExternal"
    by (simp add: testIntegrator_def testExternal_def getParticleMass_def shaped_def
        thermostatWorld_def less_Suc_eq numeral_eq_Suc)
  have col: "readColumn thermostatWorld 2 1 4 = [2, 0, 1, 3]"
    unfolding readColumn_def idx thermostatWorld_def by simp
  have d: "drawsBefore \<lparr>masses = [1, 0, 2]\<rparr> 4 2 1 = 16" "drawsBefore \<lparr>masses = [1, 0, 2]\<rparr> 4 3 0 = 24"
    unfolding drawsBefore_def idx by (simp_all add: getParticleMass_def)
  note b = t[THEN conjunct2, THEN conjunct2, THEN conjunct2, rule_format, OF h, unfolded col d]
  show ?thesis using m[of 1] m[of 2] i b[THEN conjunct1] b[THEN conjunct2, THEN conjunct1]
    by (simp add: isNyquist_def)
qed

section \<open>Ring-polymer contraction\<close>

lemma c2c_append:
  assumes "length xs = n"
  shows "c2c n forward (xs @ ys) fct = c2c n forward xs fct @ ys"
proof -
  have "(\<Sum>j<n. (xs @ ys) ! j * unityRoot n forward ^ (j * k)) =
        (\<Sum>j<n. xs ! j * unityRoot n forward ^ (j * k))" for k
    using assms by (intro sum.cong refl) (simp add: nth_append)
  then show ?thesis using assms by (simp add: c2c_def)
qed

lemma c2c_take_drop:
  "n \<le> length q \<Longrightarrow> c2c n forward q fct = c2c n forward (take n q) fct @ drop n q"
  using c2c_append[of "take n q" n forward "drop n q" fct] by simp

lemma c2c_one: "1 \<le> length xs \<Longrightarrow> c2c 1 forward xs 1 = xs"
  by (cases xs) (simp_all add: c2c_def)

lemma cos_eq_1_open:
  assumes "0 < t" "t < 2 * pi"
  shows "cos t \<noteq> 1"
proof
  assume c: "cos t = 1"
  have "(sin t)\<^sup>2 + (cos t)\<^sup>2 = 1" by simp
  then have s: "sin t = 0" using c by simp
  consider "t < pi" | "t = pi" | "pi < t" by linarith
  then show False
  proof cases
    case 1
    then have "0 < sin t" using assms(1) by (rule sin_gt_zero[rotated])
    then show False using s by simp
  next
    case 2
    then show False using c by simp
  next
    case 3
    then have "0 < sin (t - pi)" using assms(2) by (intro sin_gt_zero) simp_all
    moreover have "sin (t - pi) = - sin t" by (simp add: sin_diff)
    ultimately show False using s by simp
  qed
qed

lemma unityRoot_power_neq_1:
  assumes "0 < k" "k < n"
  shows "unityRoot n forward ^ k \<noteq> 1"
proof
  assume eq: "unityRoot n forward ^ k = 1"
  define t where "t = real k * (2 * pi / real n)"
  have t: "0 < t" "t < 2 * pi"
    using assms by (simp_all add: t_def field_simps)
  have "unityRoot n forward ^ k = cis (if forward then - t else t)"
    by (simp add: unityRoot_def DeMoivre t_def)
  then have "cis (if forward then - t else t) = 1" using eq by simp
  then have "cos t = 1" by (auto simp: complex_eq_iff split: if_splits)
  then show False using cos_eq_1_open[OF t] by simp
qed

lemma unityRoot_sum:
  assumes "k < n"
  shows "(\<Sum>j<n. unityRoot n forward ^ (j * k)) = (if k = 0 then of_nat n else 0)"
proof (cases "k = 0")
  case True
  then show ?thesis by simp
next
  case False
  let ?x = "unityRoot n forward ^ k"
  have x1: "?x \<noteq> 1" using False assms by (intro unityRoot_power_neq_1) simp_all
  have "?x ^ n = (unityRoot n forward ^ n) ^ k" by (simp add: power_mult mult.commute flip: power_mult)
  then have xn: "?x ^ n = 1" using assms unityRoot_power_n[of n forward] by simp
  have "unityRoot n forward ^ (j * k) = ?x ^ j" for j
    by (metis mult.commute power_mult)
  then have "(\<Sum>j<n. unityRoot n forward ^ (j * k)) = (\<Sum>j<n. ?x ^ j)"
    by simp
  also have "\<dots> = (?x ^ n - 1) / (?x - 1)" using x1 by (rule geometric_sum)
  also have "\<dots> = 0" using xn by simp
  finally show ?thesis using False by simp
qed

lemma c2c_constant:
  assumes "0 < n"
  shows "c2c n forward (replicate n x) 1 = (of_nat n * x) # replicate (n - 1) 0"
proof (rule nth_equalityI)
  show "length (c2c n forward (replicate n x) 1) = length ((of_nat n * x) # replicate (n - 1) 0)"
    using assms by (simp add: c2c_def)
next
  fix k assume "k < length (c2c n forward (replicate n x) 1)"
  then have k: "k < n" by (simp add: c2c_def)
  have "(\<Sum>j<n. replicate n x ! j * unityRoot n forward ^ (j * k)) =
        (\<Sum>j<n. x * unityRoot n forward ^ (j * k))"
    by (intro sum.cong refl) simp
  then have "c2c n forward (replicate n x) 1 ! k = (\<Sum>j<n. x * unityRoot n forward ^ (j * k))"
    using k by (simp add: c2c_nth)
  also have "\<dots> = x * (\<Sum>j<n. unityRoot n forward ^ (j * k))" by (simp add: sum_distrib_left)
  also have "\<dots> = (if k = 0 then of_nat n * x else 0)" using unityRoot_sum[OF k] by simp
  also have "\<dots> = ((of_nat n * x) # replicate (n - 1) 0) ! k"
    using k by (cases k) simp_all
  finally show "c2c n forward (replicate n x) 1 ! k = ((of_nat n * x) # replicate (n - 1) 0) ! k" .
qed

lemma c2c_impulse:
  assumes "0 < n"
  shows "c2c n forward (y # replicate (n - 1) 0) 1 = replicate n y"
proof (rule nth_equalityI)
  show "length (c2c n forward (y # replicate (n - 1) 0) 1) = length (replicate n y)"
    using assms by (simp add: c2c_def)
next
  fix k assume "k < length (c2c n forward (y # replicate (n - 1) 0) 1)"
  then have k: "k < n" using assms by (simp add: c2c_def)
  have "(\<Sum>j<n. (y # replicate (n - 1) 0) ! j * unityRoot n forward ^ (j * k)) =
        (\<Sum>j<n. if j = 0 then y else 0)"
    by (intro sum.cong refl) (auto simp: nth_Cons split: nat.split)
  also have "\<dots> = y" using assms by simp
  finally show "c2c n forward (y # replicate (n - 1) 0) 1 ! k = replicate n y ! k"
    using k by (simp add: c2c_nth)
qed

lemma fold_update_length:
  "length (fold (\<lambda>k q. q[g k := h k q]) ks q) = length q"
  by (induction ks arbitrary: q) simp_all

lemma shift_left_fold_nth:
  assumes "0 < d" "d \<le> a"
  shows "b \<le> length q \<Longrightarrow> i < length q \<Longrightarrow>
     fold (\<lambda>k q. q[k - d := q ! k]) [a..<b] q ! i =
       (if a \<le> i + d \<and> i + d < b then q ! (i + d) else q ! i)"
proof (induction b arbitrary: i)
  case 0
  then show ?case by simp
next
  case (Suc b)
  let ?q = "fold (\<lambda>k q. q[k - d := q ! k]) [a..<b] q"
  show ?case
  proof (cases "a \<le> b")
    case False
    then show ?thesis by auto
  next
    case True
    have len: "length ?q = length q" by (rule fold_update_length)
    have b: "b < length q" using Suc.prems by simp
    have qb: "?q ! b = q ! b" using Suc.IH[of b] b assms by simp
    have "fold (\<lambda>k q. q[k - d := q ! k]) [a..<Suc b] q = ?q[b - d := ?q ! b]"
      using True by simp
    then show ?thesis
      using Suc.IH[of i] Suc.prems b assms True len qb
      by (auto simp: nth_list_update)
  qed
qed

lemma take_packModes:
  assumes "length q = P" "1 \<le> P'" "P' < P"
  shows "take P' (packModes P P' q) = keptModes P P' q"
proof (rule nth_equalityI)
  let ?s = "(P' + 1) div 2"
  have s: "?s \<le> P'" "1 \<le> ?s" using assms by auto
  show "length (take P' (packModes P P' q)) = length (keptModes P P' q)"
    using assms s by (simp add: packModes_def keptModes_def fold_update_length Let_def)
  fix i assume "i < length (take P' (packModes P P' q))"
  then have i: "i < P'" by simp
  have "packModes P P' q ! i =
      (if P - P' + ?s \<le> i + (P - P') \<and> i + (P - P') < P then q ! (i + (P - P')) else q ! i)"
    unfolding packModes_def Let_def
    using assms i by (intro shift_left_fold_nth) simp_all
  then show "take P' (packModes P P' q) ! i = keptModes P P' q ! i"
    using i assms s by (auto simp: keptModes_def nth_append add.commute)
qed

lemma shift_right_fold_nth:
  assumes "d \<le> a"
  shows "b \<le> length q \<Longrightarrow> b - d \<le> a \<Longrightarrow> i < length q \<Longrightarrow>
     fold (\<lambda>k q. q[k := q ! (k - d)]) [a..<b] q ! i =
       (if a \<le> i \<and> i < b then q ! (i - d) else q ! i)"
proof (induction b arbitrary: i)
  case 0
  then show ?case by simp
next
  case (Suc b)
  let ?q = "fold (\<lambda>k q. q[k := q ! (k - d)]) [a..<b] q"
  show ?case
  proof (cases "a \<le> b")
    case False
    then show ?thesis by auto
  next
    case True
    have len: "length ?q = length q" by (rule fold_update_length)
    have b: "b < length q" "b - d \<le> a" "b - d < length q" using Suc.prems by simp_all
    have "b - d < a" using Suc.prems(2) True assms by linarith
    then have qb: "?q ! (b - d) = q ! (b - d)" using Suc.IH[of "b - d"] b by simp
    have "fold (\<lambda>k q. q[k := q ! (k - d)]) [a..<Suc b] q = ?q[b := ?q ! (b - d)]"
      using True by simp
    then show ?thesis
      using Suc.IH[of i] Suc.prems b True len qb
      by (auto simp: nth_list_update)
  qed
qed

lemma assign_fold_nth:
  "b \<le> length q \<Longrightarrow> i < length q \<Longrightarrow>
   fold (\<lambda>k q. q[k := g k]) [a..<b] q ! i = (if a \<le> i \<and> i < b then g i else q ! i)"
proof (induction b arbitrary: i)
  case 0
  then show ?case by simp
next
  case (Suc b)
  show ?case
  proof (cases "a \<le> b")
    case False
    then show ?thesis by auto
  next
    case True
    have len: "length (fold (\<lambda>k q. q[k := g k]) [a..<b] q) = length q"
      by (rule fold_update_length)
    show ?thesis using Suc.IH[of i] Suc.prems True len by (auto simp: nth_list_update)
  qed
qed

lemma zero_fold_nth:
  "b \<le> length q \<Longrightarrow> i < length q \<Longrightarrow>
   fold (\<lambda>k q. q[k := 0]) [a..<b] q ! i = (if a \<le> i \<and> i < b then 0 else q ! i)"
  by (rule assign_fold_nth)

lemma length_unpackModes [simp]: "length (unpackModes P P' q) = length q"
  by (simp add: unpackModes_def Let_def fold_update_length)

lemma unpackModes_padded:
  assumes "length q = P" "1 \<le> P'" "P' < P" "P' div 2 \<le> P - P'"
  shows "unpackModes P P' q = paddedModes P P' (take P' q)"
proof -
  define s where "s = (P' + 1) div 2"
  define h where "h = P' div 2"
  define d where "d = P - P'"
  have P': "P' = s + h" unfolding s_def h_def by arith
  have P: "P = d + (s + h)" using assms(3) by (simp add: d_def P')
  have hd: "h \<le> d" "1 \<le> s" using assms by (simp_all add: h_def d_def s_def)
  have lq: "length q = d + (s + h)" using assms(1) P by simp
  let ?q1 = "fold (\<lambda>k q. q[k := q ! (k - d)]) [d + s..<d + (s + h)] q"
  have l1: "length ?q1 = d + (s + h)" using lq by (simp add: fold_update_length)
  have q1: "?q1 ! i = (if d + s \<le> i \<and> i < d + (s + h) then q ! (i - d) else q ! i)"
    if "i < d + (s + h)" for i
    using lq that hd by (intro shift_right_fold_nth) simp_all
  have up: "unpackModes P P' q = fold (\<lambda>k q. q[k := 0]) [s..<d + s] ?q1"
    unfolding unpackModes_def Let_def s_def[symmetric] d_def[symmetric]
    by (simp add: P)
  have u: "unpackModes P P' q ! i = (if s \<le> i \<and> i < d + s then 0 else ?q1 ! i)"
    if "i < d + (s + h)" for i
    unfolding up using l1 that by (subst zero_fold_nth) simp_all
  have pad: "paddedModes P P' (take P' q) = take s q @ replicate d 0 @ take h (drop s q)"
    unfolding paddedModes_def s_def[symmetric] d_def[symmetric]
    by (simp add: P' drop_take)
  show ?thesis
  proof (rule nth_equalityI)
    show "length (unpackModes P P' q) = length (paddedModes P P' (take P' q))"
      unfolding pad using lq by simp
    fix i assume "i < length (unpackModes P P' q)"
    then have i: "i < d + (s + h)" using lq by simp
    show "unpackModes P P' q ! i = paddedModes P P' (take P' q) ! i"
      unfolding pad u[OF i] using q1[OF i] i lq
      by (auto simp: nth_append)
  qed
qed

lemma map_nth_take: "n \<le> length xs \<Longrightarrow> map (\<lambda>k. f (xs ! k)) [0..<n] = map f (take n xs)"
  by (rule nth_equalityI) simp_all

lemma length_packModes [simp]: "length (packModes P P' q) = length q"
  by (simp add: packModes_def Let_def fold_update_length)

lemma length_keptModes: "length q = P \<Longrightarrow> P' \<le> P \<Longrightarrow> length (keptModes P P' q) = P'"
  by (simp add: keptModes_def; arith?)

lemma contractColumn_closed_form:
  assumes "length col = P" "1 \<le> P'" "P' < P"
  shows "snd (contractColumn P P' col) = contractedColumn P P' col"
proof -
  define q where "q = c2c P True (map (\<lambda>x. Complex x 0) col) 1"
  have lq: "length q = P" using assms(1) by (simp add: q_def length_c2c)
  have lk: "length (keptModes P P' q) = P'" using lq assms(3) by (simp add: length_keptModes)
  define q' where "q' = (if P' > 1 then c2c P' False (packModes P P' q) 1 else q)"
  have "take P' q' = c2c P' False (keptModes P P' q) 1"
  proof (cases "P' > 1")
    case True
    have "c2c P' False (packModes P P' q) 1 =
        c2c P' False (take P' (packModes P P' q)) 1 @ drop P' (packModes P P' q)"
      using lq assms(3) by (intro c2c_take_drop) simp
    then show ?thesis
      using True lk by (simp add: q'_def take_packModes[OF lq assms(2,3)] length_c2c)
  next
    case False
    then have P1: "P' = 1" using assms(2) by simp
    have "keptModes P 1 q = take 1 q" using lq by (simp add: keptModes_def)
    moreover have "c2c 1 False (take 1 q) 1 = take 1 q"
      using lq assms(3) P1 by (intro c2c_one) simp
    ultimately show ?thesis by (simp add: q'_def P1)
  qed
  moreover have "length q' = P" by (simp add: q'_def lq length_c2c assms(3) less_imp_le)
  then have "map (\<lambda>k. 1 / real P * Re (q' ! k)) [0..<P'] =
      map (\<lambda>z. 1 / real P * Re z) (take P' q')"
    using assms(3) by (intro map_nth_take) simp
  ultimately have vals: "map (\<lambda>k. 1 / real P * Re (q' ! k)) [0..<P'] =
      map (\<lambda>z. 1 / real P * Re z) (c2c P' False (keptModes P P' q) 1)"
    by simp
  have "snd (contractColumn P P' col) = map (\<lambda>k. 1 / real P * Re (q' ! k)) [0..<P']"
    unfolding contractColumn_def Let_def snd_conv q_def[symmetric] q'_def[symmetric] ..
  then show ?thesis
    unfolding contractedColumn_def q_def[symmetric] vals .
qed

lemma fill_fold:
  assumes "n \<le> length q" "length col = n"
  shows "fold (\<lambda>k q. q[k := Complex (col ! k) 0]) [0..<n] q
           = map (\<lambda>x. Complex x 0) col @ drop n q"
proof (rule nth_equalityI)
  show "length (fold (\<lambda>k q. q[k := Complex (col ! k) 0]) [0..<n] q) =
      length (map (\<lambda>x. Complex x 0) col @ drop n q)"
    using assms by (simp add: fold_update_length)
  fix i assume "i < length (fold (\<lambda>k q. q[k := Complex (col ! k) 0]) [0..<n] q)"
  then have i: "i < length q" by (simp add: fold_update_length)
  have "fold (\<lambda>k q. q[k := Complex (col ! k) 0]) [0..<n] q ! i =
      (if 0 \<le> i \<and> i < n then Complex (col ! i) 0 else q ! i)"
    using assms(1) i by (rule assign_fold_nth)
  then show "fold (\<lambda>k q. q[k := Complex (col ! k) 0]) [0..<n] q ! i =
      (map (\<lambda>x. Complex x 0) col @ drop n q) ! i"
    using assms i by (auto simp: nth_append)
qed

lemma extendColumn_spectrum:
  assumes "length fcol = P'" "length q = P" "1 \<le> P'" "P' < P"
  defines "q2 \<equiv> (let q1 = fold (\<lambda>k q. q[k := Complex (fcol ! k) 0]) [0..<P'] q
                 in if P' > 1 then c2c P' True q1 1 else q1)"
  shows "q2 = c2c P' True (map (\<lambda>x. Complex x 0) fcol) 1 @ drop P' q"
proof -
  let ?f = "map (\<lambda>x. Complex x 0) fcol"
  have q1: "fold (\<lambda>k q. q[k := Complex (fcol ! k) 0]) [0..<P'] q = ?f @ drop P' q"
    using assms by (intro fill_fold) simp_all
  have lf: "length ?f = P'" using assms by simp
  show ?thesis
  proof (cases "P' > 1")
    case True
    then show ?thesis unfolding q2_def Let_def q1 using c2c_append[OF lf] by simp
  next
    case False
    then have P1: "P' = 1" using assms by simp
    have "c2c 1 True ?f 1 = ?f" using lf P1 by (intro c2c_one) simp
    then show ?thesis unfolding q2_def Let_def q1 using P1 by simp
  qed
qed

lemma extendColumn_unfold:
  "snd (extendColumn P P' q fcol) =
     map (\<lambda>k. 1 / real P' * Re (c2c P False (unpackModes P P'
        (let q1 = fold (\<lambda>k q. q[k := Complex (fcol ! k) 0]) [0..<P'] q
         in if P' > 1 then c2c P' True q1 1 else q1)) 1 ! k)) [0..<P]"
  by (simp add: extendColumn_def Let_def)

lemma extendColumn_closed_form:
  assumes "length fcol = P'" "length q = P" "1 \<le> P'" "P' < P" "P' div 2 \<le> P - P'"
  shows "snd (extendColumn P P' q fcol) = extendedColumn P P' fcol"
proof -
  define F where "F = c2c P' True (map (\<lambda>x. Complex x 0) fcol) 1"
  have lF: "length F = P'" using assms(1) by (simp add: F_def length_c2c)
  have lq2: "length (F @ drop P' q) = P" using lF assms by simp
  have "unpackModes P P' (F @ drop P' q) = paddedModes P P' (take P' (F @ drop P' q))"
    using lq2 assms(3,4,5) by (rule unpackModes_padded)
  then have up: "unpackModes P P' (F @ drop P' q) = paddedModes P P' F" using lF by simp
  have lp: "length (paddedModes P P' F) = P"
    using up lq2 by (metis length_unpackModes)
  have "map (\<lambda>k. 1 / real P' * Re (c2c P False (paddedModes P P' F) 1 ! k)) [0..<P] =
      map (\<lambda>z. 1 / real P' * Re z) (take P (c2c P False (paddedModes P P' F) 1))"
    using lp by (intro map_nth_take) (simp add: length_c2c)
  also have "\<dots> = map (\<lambda>z. 1 / real P' * Re z) (c2c P False (paddedModes P P' F) 1)"
    using lp by (simp add: length_c2c)
  finally show ?thesis
    unfolding extendColumn_unfold extendColumn_spectrum[OF assms(1-4)] F_def[symmetric] up
      extendedColumn_def .
qed

lemma unpackModes_impulse:
  assumes "length q = P" "1 \<le> P'" "P' < P" "\<forall>i. 1 \<le> i \<and> i < P' \<longrightarrow> q ! i = 0"
  shows "unpackModes P P' q = q ! 0 # replicate (P - 1) 0"
proof -
  define s where "s = (P' + 1) div 2"
  define d where "d = P - P'"
  have sd: "1 \<le> s" "s \<le> P'" "1 \<le> d" "d + P' = P" using assms by (auto simp: s_def d_def)
  let ?step = "\<lambda>k q. q[k := q ! (k - d)]"
  have inv: "b \<le> P \<Longrightarrow>
      length (fold ?step [d + s..<b] q) = P \<and>
      fold ?step [d + s..<b] q ! 0 = q ! 0 \<and>
      (\<forall>i. 1 \<le> i \<and> i < P' \<longrightarrow> fold ?step [d + s..<b] q ! i = 0) \<and>
      (\<forall>i. d + s \<le> i \<and> i < b \<longrightarrow> fold ?step [d + s..<b] q ! i = 0)" for b
  proof (induction b)
    case 0
    then show ?case using assms by simp
  next
    case (Suc b)
    show ?case
    proof (cases "d + s \<le> b")
      case False
      then show ?thesis using assms by auto
    next
      case True
      let ?q = "fold ?step [d + s..<b] q"
      have IH: "length ?q = P" "?q ! 0 = q ! 0"
        "\<forall>i. 1 \<le> i \<and> i < P' \<longrightarrow> ?q ! i = 0"
        "\<forall>i. d + s \<le> i \<and> i < b \<longrightarrow> ?q ! i = 0"
        using Suc by simp_all
      have b: "b < P" using Suc.prems by simp
      have rd: "1 \<le> b - d" "b - d < P'" using True b sd by linarith+
      then have z: "?q ! (b - d) = 0" using IH(3) by simp
      have st: "fold ?step [d + s..<Suc b] q = ?q[b := 0]" using True z by simp
      show ?thesis
        unfolding st using IH b True sd
        by (auto simp: nth_list_update)
    qed
  qed
  let ?q1 = "fold ?step [d + s..<P] q"
  note i1 = inv[of P, simplified]
  have up: "unpackModes P P' q = fold (\<lambda>k q. q[k := 0]) [s..<d + s] ?q1"
    unfolding unpackModes_def Let_def s_def[symmetric] d_def[symmetric] by simp
  show ?thesis
  proof (rule nth_equalityI)
    show "length (unpackModes P P' q) = length (q ! 0 # replicate (P - 1) 0)"
      using assms by simp
    fix i assume "i < length (unpackModes P P' q)"
    then have i: "i < P" using assms by simp
    have "unpackModes P P' q ! i = (if s \<le> i \<and> i < d + s then 0 else ?q1 ! i)"
      unfolding up using i1 i sd by (subst zero_fold_nth) simp_all
    moreover have "?q1 ! i = (if i = 0 then q ! 0 else 0)" if "\<not> (s \<le> i \<and> i < d + s)"
      using i1 that i sd by (cases "i = 0") (auto simp: not_le)
    ultimately show "unpackModes P P' q ! i = (q ! 0 # replicate (P - 1) 0) ! i"
      using i sd by (cases i) auto
  qed
qed

lemma contractComponent_reads:
  assumes "shaped M N cpos" "P' \<le> M" "p < N" "c < 3"
  shows "readColumn (fst (contractComponent P P' pos p c (cpos, q))) p c P'
           = snd (contractColumn P P' (readColumn pos p c P))"
proof -
  let ?vals = "snd (contractColumn P P' (readColumn pos p c P))"
  have lv: "length ?vals = P'" by (simp add: contractColumn_def Let_def)
  have "readColumn (fst (contractComponent P P' pos p c (cpos, q))) p c P'
      = map (\<lambda>k. ?vals ! k) [0..<P']"
    using assms
    by (simp add: contractComponent_def split_beta readColumn_writeColumn_same)
  also have "\<dots> = ?vals" using lv map_nth[of ?vals] by simp
  finally show ?thesis .
qed

lemma contractComponent_column:
  assumes "shaped M N cpos" "P' \<le> M" "p < N" "c < 3" "1 \<le> P'" "P' < P"
  shows "readColumn (fst (contractComponent P P' pos p c (cpos, q))) p c P'
           = contractedColumn P P' (readColumn pos p c P)"
  unfolding contractComponent_reads[OF assms(1-4)]
  using assms(5,6) by (intro contractColumn_closed_form) simp_all

lemma extendComponent_column:
  assumes "shaped P N frc" "length q = P" "p < N" "c < 3" "1 \<le> P'" "P' < P"
  shows "readColumn (fst (extendComponent P P' cfrc p c (frc, q))) p c P
           = map (\<lambda>k. readColumn frc p c P ! k
                        + snd (extendColumn P P' q (readColumn cfrc p c P')) ! k) [0..<P]"
proof -
  have "readColumn (fst (extendComponent P P' cfrc p c (frc, q))) p c P
      = map (\<lambda>k. component (frc ! k ! p) c
                   + snd (extendColumn P P' q (readColumn cfrc p c P')) ! k) [0..<P]"
    using assms(1-4)
    by (simp add: extendComponent_def split_beta readColumn_writeColumn_same)
  also have "\<dots> = map (\<lambda>k. readColumn frc p c P ! k
                        + snd (extendColumn P P' q (readColumn cfrc p c P')) ! k) [0..<P]"
    by (intro map_cong refl) (simp add: readColumn_def)
  finally show ?thesis .
qed

lemma shift_right_fold_low:
  "b \<le> length q \<Longrightarrow> i < a \<Longrightarrow> fold (\<lambda>k q. q[k := q ! (k - d)]) [a..<b] q ! i = q ! i"
proof (induction b)
  case 0
  then show ?case by simp
next
  case (Suc b)
  show ?case
  proof (cases "a \<le> b")
    case False
    then show ?thesis by simp
  next
    case True
    then show ?thesis using Suc by simp
  qed
qed

lemma shift_right_fold_first:
  assumes "1 \<le> d" "d \<le> a"
  shows "b \<le> length q \<Longrightarrow> a \<le> i \<Longrightarrow> i < b \<Longrightarrow> i < a + d \<Longrightarrow>
     fold (\<lambda>k q. q[k := q ! (k - d)]) [a..<b] q ! i = q ! (i - d)"
proof (induction b)
  case 0
  then show ?case by simp
next
  case (Suc b)
  let ?q = "fold (\<lambda>k q. q[k := q ! (k - d)]) [a..<b] q"
  have ab: "a \<le> b" using Suc.prems by simp
  have len: "length ?q = length q" by (rule fold_update_length)
  have st: "fold (\<lambda>k q. q[k := q ! (k - d)]) [a..<Suc b] q = ?q[b := ?q ! (b - d)]"
    using ab by simp
  show ?case
  proof (cases "i = b")
    case True
    have "b - d < a" using Suc.prems True assms by linarith
    then have "?q ! (b - d) = q ! (b - d)"
      using Suc.prems by (intro shift_right_fold_low) simp_all
    then show ?thesis unfolding st using True Suc.prems len by simp
  next
    case False
    then have "i < b" using Suc.prems by simp
    then have "?q ! i = q ! (i - d)" using Suc by simp
    then show ?thesis unfolding st using False by simp
  qed
qed

lemma unpackModes_nth:
  assumes "length q = P" "1 \<le> P'" "P' < P"
  shows "k < (P' + 1) div 2 \<Longrightarrow> unpackModes P P' q ! k = q ! k"
    and "(P' + 1) div 2 \<le> k \<Longrightarrow> k < P - P' + (P' + 1) div 2 \<Longrightarrow> unpackModes P P' q ! k = 0"
    and "P - P' + (P' + 1) div 2 \<le> k \<Longrightarrow> k < P \<Longrightarrow> k - (P - P') < P - P' + (P' + 1) div 2 \<Longrightarrow>
           unpackModes P P' q ! k = q ! (k - (P - P'))"
proof -
  define s where "s = (P' + 1) div 2"
  define d where "d = P - P'"
  have sd: "1 \<le> s" "s \<le> P'" "1 \<le> d" "d + P' = P" using assms by (auto simp: s_def d_def)
  let ?q1 = "fold (\<lambda>k q. q[k := q ! (k - d)]) [d + s..<P] q"
  have l1: "length ?q1 = P" using assms(1) by (simp add: fold_update_length)
  have up: "unpackModes P P' q = fold (\<lambda>k q. q[k := 0]) [s..<d + s] ?q1"
    unfolding unpackModes_def Let_def s_def[symmetric] d_def[symmetric] by simp
  have u: "unpackModes P P' q ! i = (if s \<le> i \<and> i < d + s then 0 else ?q1 ! i)" if "i < P" for i
    unfolding up using l1 that sd by (subst zero_fold_nth) simp_all
  show "unpackModes P P' q ! k = q ! k" if "k < (P' + 1) div 2"
  proof -
    have k: "k < s" using that by (simp add: s_def)
    then have "k < P" "k < d + s" using sd by simp_all
    then show ?thesis
      using u[of k] k shift_right_fold_low[of P q k "d + s" d] assms(1) by simp
  qed
  show "unpackModes P P' q ! k = 0"
    if "(P' + 1) div 2 \<le> k" "k < P - P' + (P' + 1) div 2"
  proof -
    have "s \<le> k" "k < d + s" using that by (simp_all add: s_def d_def)
    moreover have "k < P" using \<open>k < d + s\<close> sd by simp
    ultimately show ?thesis using u[of k] by simp
  qed
  show "unpackModes P P' q ! k = q ! (k - (P - P'))"
    if "P - P' + (P' + 1) div 2 \<le> k" "k < P" "k - (P - P') < P - P' + (P' + 1) div 2"
  proof -
    have k0: "d + s \<le> k" "k < P" "k - d < d + s" using that unfolding s_def d_def by blast+
    then have k: "d + s \<le> k" "k < P" "k < d + s + d" by linarith+
    have q1: "?q1 ! k = q ! (k - d)"
      using sd(3) k assms(1) by (intro shift_right_fold_first) simp_all
    have "unpackModes P P' q ! k = ?q1 ! k" using u[OF k(2)] k(1) by simp
    then have "unpackModes P P' q ! k = q ! (k - d)" by (simp only: q1)
    then show ?thesis unfolding d_def .
  qed
qed

lemma length_spreadModes:
  "length fcol = P' \<Longrightarrow> length q = P \<Longrightarrow> P' < P \<Longrightarrow> length (spreadModes P P' q fcol) = P"
  by (simp add: spreadModes_def length_c2c)

lemma extendColumn_spreadModes:
  assumes "length fcol = P'" "length q = P" "1 \<le> P'" "P' < P"
  shows "snd (extendColumn P P' q fcol) =
     map (\<lambda>k. 1 / real P' * Re (c2c P False (spreadModes P P' q fcol) 1 ! k)) [0..<P]"
  unfolding extendColumn_unfold extendColumn_spectrum[OF assms] spreadModes_def ..

lemma spreadModes_nth:
  assumes "length fcol = P'" "length q = P" "1 \<le> P'" "P' < P"
  shows "k < (P' + 1) div 2 \<Longrightarrow>
           spreadModes P P' q fcol ! k = c2c P' True (map (\<lambda>x. Complex x 0) fcol) 1 ! k"
    and "(P' + 1) div 2 \<le> k \<Longrightarrow> k < P - P' + (P' + 1) div 2 \<Longrightarrow> spreadModes P P' q fcol ! k = 0"
    and "P - P' + (P' + 1) div 2 \<le> k \<Longrightarrow> k < P \<Longrightarrow> k - (P - P') < P - P' + (P' + 1) div 2 \<Longrightarrow>
           spreadModes P P' q fcol ! k
             = c2c P' True (map (\<lambda>x. Complex x 0) fcol) 1 ! (k - (P - P'))"
proof -
  define F where "F = c2c P' True (map (\<lambda>x. Complex x 0) fcol) 1"
  have lF: "length F = P'" using assms(1) by (simp add: F_def length_c2c)
  have l: "length (F @ drop P' q) = P" using lF assms by simp
  note n = unpackModes_nth[OF l assms(3,4)]
  have s: "(P' + 1) div 2 \<le> P'" by simp
  show "spreadModes P P' q fcol ! k = c2c P' True (map (\<lambda>x. Complex x 0) fcol) 1 ! k"
    if "k < (P' + 1) div 2"
    unfolding spreadModes_def F_def[symmetric] n(1)[OF that]
    using that s lF by (simp add: nth_append)
  show "spreadModes P P' q fcol ! k = 0"
    if "(P' + 1) div 2 \<le> k" "k < P - P' + (P' + 1) div 2"
    unfolding spreadModes_def F_def[symmetric] using n(2)[OF that] .
  show "spreadModes P P' q fcol ! k = c2c P' True (map (\<lambda>x. Complex x 0) fcol) 1 ! (k - (P - P'))"
    if "P - P' + (P' + 1) div 2 \<le> k" "k < P" "k - (P - P') < P - P' + (P' + 1) div 2"
  proof -
    have "k - (P - P') < P'" using that assms by linarith
    then show ?thesis
      unfolding spreadModes_def F_def[symmetric] n(3)[OF that] using lF by (simp add: nth_append)
  qed
qed

text \<open>
  Claim C3, as amended.  For a contraction from \<open>P\<close> copies to \<open>P'\<close> copies
  (\<open>1 \<le> P' < P\<close>) of one component of one particle, with \<open>start = (P' + 1) div 2\<close> and
  \<open>end = P - P' + start\<close>: the contracted positions are the real parts, times \<open>1 / P\<close>, of
  the length-\<open>P'\<close> back transform of the modes \<open>[0, start)\<close> and \<open>[end, P)\<close> of the
  length-\<open>P\<close> transform, packed contiguously (\<open>contractedColumn\<close>, \<open>keptModes\<close>).  For the
  forces, the length-\<open>P'\<close> transform of the contracted forces is spread over a length-\<open>P\<close>
  spectrum (\<open>spreadModes\<close>): modes \<open>[0, start)\<close> stay at the low end, the positions
  \<open>[start, end)\<close> are zero, and a position \<open>k\<close> of the high end \<open>[end, P)\<close> holds mode
  \<open>k - (P - P')\<close> whenever that mode lies below \<open>end\<close>, which is the whole high end when
  \<open>P' div 2 \<le> P - P'\<close>; the spectrum is transformed back at length \<open>P\<close>, and its real part
  times \<open>1 / P'\<close> is added to the forces of the copies.
\<close>

theorem closed_contraction_component:
  assumes "1 \<le> P'" and "P' < P" and "p < N" and "c < 3"
  shows "(shaped M N cpos \<and> P' \<le> M \<longrightarrow>
            readColumn (fst (contractComponent P P' pos p c (cpos, q))) p c P'
              = contractedColumn P P' (readColumn pos p c P)) \<and>
         (shaped P N frc \<and> length q = P \<longrightarrow>
            readColumn (fst (extendComponent P P' cfrc p c (frc, q))) p c P
              = map (\<lambda>k. readColumn frc p c P ! k
                           + 1 / real P' * Re (c2c P False
                               (spreadModes P P' q (readColumn cfrc p c P')) 1 ! k)) [0..<P] \<and>
            length (spreadModes P P' q (readColumn cfrc p c P')) = P \<and>
            (\<forall>k. k < (P' + 1) div 2 \<longrightarrow>
               spreadModes P P' q (readColumn cfrc p c P') ! k
                 = c2c P' True (map (\<lambda>x. Complex x 0) (readColumn cfrc p c P')) 1 ! k) \<and>
            (\<forall>k. (P' + 1) div 2 \<le> k \<and> k < P - P' + (P' + 1) div 2 \<longrightarrow>
               spreadModes P P' q (readColumn cfrc p c P') ! k = 0) \<and>
            (\<forall>k. P - P' + (P' + 1) div 2 \<le> k \<and> k < P \<and>
                 k - (P - P') < P - P' + (P' + 1) div 2 \<longrightarrow>
               spreadModes P P' q (readColumn cfrc p c P') ! k
                 = c2c P' True (map (\<lambda>x. Complex x 0) (readColumn cfrc p c P')) 1
                     ! (k - (P - P'))))"
proof (intro conjI impI allI)
  assume "shaped M N cpos \<and> P' \<le> M"
  then show "readColumn (fst (contractComponent P P' pos p c (cpos, q))) p c P'
              = contractedColumn P P' (readColumn pos p c P)"
    using assms contractComponent_column[of M N cpos P' p c P pos q] by simp
next
  assume a: "shaped P N frc \<and> length q = P"
  have l: "length (readColumn cfrc p c P') = P'" by simp
  have "readColumn (fst (extendComponent P P' cfrc p c (frc, q))) p c P
      = map (\<lambda>k. readColumn frc p c P ! k
                   + snd (extendColumn P P' q (readColumn cfrc p c P')) ! k) [0..<P]"
    using extendComponent_column[of P N frc q p c P' cfrc] a assms by simp
  also have "\<dots> = map (\<lambda>k. readColumn frc p c P ! k
                           + 1 / real P' * Re (c2c P False
                               (spreadModes P P' q (readColumn cfrc p c P')) 1 ! k)) [0..<P]"
    using a assms(1,2) by (simp add: extendColumn_spreadModes[OF l])
  finally show "readColumn (fst (extendComponent P P' cfrc p c (frc, q))) p c P
              = map (\<lambda>k. readColumn frc p c P ! k
                           + 1 / real P' * Re (c2c P False
                               (spreadModes P P' q (readColumn cfrc p c P')) 1 ! k)) [0..<P]" .
next
  assume a: "shaped P N frc \<and> length q = P"
  then show "length (spreadModes P P' q (readColumn cfrc p c P')) = P"
    using assms(2) by (simp add: length_spreadModes)
next
  fix k
  assume a: "shaped P N frc \<and> length q = P" and k: "k < (P' + 1) div 2"
  have l: "length (readColumn cfrc p c P') = P'" by simp
  from a have lq: "length q = P" by simp
  show "spreadModes P P' q (readColumn cfrc p c P') ! k
          = c2c P' True (map (\<lambda>x. Complex x 0) (readColumn cfrc p c P')) 1 ! k"
    using spreadModes_nth(1)[OF l lq assms(1,2) k] .
next
  fix k
  assume a: "shaped P N frc \<and> length q = P"
    and k: "(P' + 1) div 2 \<le> k \<and> k < P - P' + (P' + 1) div 2"
  have l: "length (readColumn cfrc p c P') = P'" by simp
  from a have lq: "length q = P" by simp
  show "spreadModes P P' q (readColumn cfrc p c P') ! k = 0"
    using spreadModes_nth(2)[OF l lq assms(1,2)] k by blast
next
  fix k
  assume a: "shaped P N frc \<and> length q = P"
    and k: "P - P' + (P' + 1) div 2 \<le> k \<and> k < P \<and> k - (P - P') < P - P' + (P' + 1) div 2"
  have l: "length (readColumn cfrc p c P') = P'" by simp
  from a have lq: "length q = P" by simp
  show "spreadModes P P' q (readColumn cfrc p c P') ! k
          = c2c P' True (map (\<lambda>x. Complex x 0) (readColumn cfrc p c P')) 1 ! (k - (P - P'))"
    using spreadModes_nth(3)[OF l lq assms(1,2)] k by blast
qed

lemma unityRoot_4: "unityRoot 4 True = - \<i>"
proof -
  have "unityRoot 4 True = cis (- (pi / 2))" by (simp add: unityRoot_def)
  then show ?thesis by (simp add: cis.ctr complex_eq_iff)
qed

lemma spectrum_example:
  "c2c 4 True (map (\<lambda>x. Complex x 0) [0, 1, 0, 0]) 1 = [1, - \<i>, - 1, \<i>]"
proof -
  define w where "w = unityRoot 4 True"
  have w: "w = - \<i>" by (simp add: w_def unityRoot_4)
  have idx: "[0..<4] = [0, 1, 2, 3]" by (simp add: upt_rec)
  have set4: "{..<4::nat} = {0, 1, 2, 3}" by auto
  have only: "(\<Sum>j<4. [0, 1, 0, 0 :: complex] ! j * w ^ (j * k)) = w ^ k" for k
    unfolding set4 by simp
  have "c2c 4 True (map (\<lambda>x. Complex x 0) [0, 1, 0, 0]) 1 = map (\<lambda>k. w ^ k) [0..<4]"
    unfolding c2c_def w_def[symmetric] using only
    by (simp add: zero_complex.code one_complex.code)
  also have "\<dots> = [1, - \<i>, - 1, \<i>]"
    unfolding idx w by (simp add: power3_eq_cube power2_eq_square)
  finally show ?thesis .
qed

lemma packModes_4_2: "packModes 4 2 q = q[1 := q ! 3]"
proof -
  have n: "(4::nat) - 2 + (2 + 1) div 2 = 3" "[3..<4] = [3::nat]" "(3::nat) - (4 - 2) = 1"
    by (simp_all add: upt_rec)
  have "packModes 4 2 q = fold (\<lambda>k q. q[k - (4 - 2) := q ! k]) [4 - 2 + (2 + 1) div 2..<4] q"
    unfolding packModes_def Let_def ..
  also have "\<dots> = q[3 - (4 - 2) := q ! 3]" unfolding n(1,2) by simp
  finally show ?thesis unfolding n(3) .
qed

lemma unityRoot_4_backward: "unityRoot 4 False = \<i>"
proof -
  have "unityRoot 4 False = cis (pi / 2)" by (simp add: unityRoot_def)
  then show ?thesis by (simp add: cis.ctr complex_eq_iff)
qed

lemma c2c_4_backward:
  "c2c 4 False [a, b, c, d] 1 =
     [a + b + c + d, a + \<i> * b - c - \<i> * d, a - b + c - d, a - \<i> * b - c + \<i> * d]"
proof -
  define w where "w = unityRoot 4 False"
  have w: "w = \<i>" by (simp add: w_def unityRoot_4_backward)
  have idx: "[0..<4] = [0, 1, 2, 3]" by (simp add: upt_rec)
  have set4: "{..<4::nat} = {0, 1, 2, 3}" by auto
  have s: "(\<Sum>j<4. [a, b, c, d] ! j * w ^ (j * k)) = a + b * w ^ k + c * w ^ (2 * k) + d * w ^ (3 * k)"
    for k
    unfolding set4 by (simp add: algebra_simps)
  have p: "\<i> ^ 4 = 1" "\<i> ^ 6 = - 1" "\<i> ^ 9 = \<i>" "\<i> ^ 3 = - \<i>"
    by (simp_all add: power_numeral_reduce)
  have "c2c 4 False [a, b, c, d] 1 =
      map (\<lambda>k. a + b * w ^ k + c * w ^ (2 * k) + d * w ^ (3 * k)) [0..<4]"
    unfolding c2c_def w_def[symmetric] using s by simp
  also have "\<dots> = [a + b + c + d, a + \<i> * b - c - \<i> * d, a - b + c - d, a - \<i> * b - c + \<i> * d]"
    unfolding idx w by (simp add: p algebra_simps)
  finally show ?thesis .
qed

lemma keptModes_4_2: "keptModes 4 2 [a, b, c, d] = [a, d]"
proof -
  have "(2 + 1) div 2 = (1::nat)" "4 - 2 + 1 = (3::nat)" by simp_all
  then show ?thesis unfolding keptModes_def by (simp add: numeral_eq_Suc)
qed

lemma contractedColumn_example: "contractedColumn 4 2 [0, 1, 0, 0] = [1 / 4, 1 / 4]"
  unfolding contractedColumn_def spectrum_example keptModes_4_2 c2c_2 by simp

lemma unpackModes_4_2: "unpackModes 4 2 [a, b, c, d] = [a, 0, 0, b]"
proof -
  have n: "(4::nat) - 2 + (2 + 1) div 2 = 3" "(2 + 1) div 2 = (1::nat)" "[3..<4] = [3::nat]"
    "[1..<3] = [1, 2::nat]" "(3::nat) - (4 - 2) = 1"
    by (simp_all add: upt_rec)
  have "unpackModes 4 2 [a, b, c, d] =
      fold (\<lambda>k q. q[k := 0]) [(2 + 1) div 2..<4 - 2 + (2 + 1) div 2]
        (fold (\<lambda>k q. q[k := q ! (k - (4 - 2))]) [4 - 2 + (2 + 1) div 2..<4] [a, b, c, d])"
    unfolding unpackModes_def Let_def ..
  also have "\<dots> = [a, 0, 0, b]" unfolding n by (simp add: numeral_eq_Suc)
  finally show ?thesis .
qed

lemma spreadModes_example: "spreadModes 4 2 [0, 0, 0, 0] [4, 2] = [6, 0, 0, 2]"
proof -
  have "map (\<lambda>x. Complex x 0) [4, 2] = [4, 2]"
    by (simp add: complex_eq_iff)
  then show ?thesis
    unfolding spreadModes_def by (simp add: c2c_2 unpackModes_4_2)
qed

lemma paddedModes_5_4: "paddedModes 5 4 [a, b, c, d] = [a, b, 0, c, d]"
proof -
  have "(4 + 1) div 2 = (2::nat)" "5 - 4 = (1::nat)" by simp_all
  then show ?thesis unfolding paddedModes_def by (simp add: numeral_eq_Suc)
qed

lemma unpackModes_overlap_example:
  "unpackModes 5 4 [a, b, c, d, e] = [a, b, 0, c, c]"
proof -
  have n: "(5::nat) - 4 + (4 + 1) div 2 = 3" "(4 + 1) div 2 = (2::nat)" "[3..<5] = [3, 4::nat]"
    "[2..<3] = [2::nat]" "(5::nat) - 4 = 1"
    by (simp_all add: upt_rec)
  have "unpackModes 5 4 [a, b, c, d, e] =
      fold (\<lambda>k q. q[k := 0]) [(4 + 1) div 2..<5 - 4 + (4 + 1) div 2]
        (fold (\<lambda>k q. q[k := q ! (k - (5 - 4))]) [5 - 4 + (4 + 1) div 2..<5] [a, b, c, d, e])"
    unfolding unpackModes_def Let_def ..
  also have "\<dots> = [a, b, 0, c, c]" unfolding n by (simp add: numeral_eq_Suc)
  finally show ?thesis .
qed

text \<open>
  The modes kept are not those of the ceiling.  For four copies contracted to two, the
  spectrum \<open>[1, -i, -1, i]\<close> of the positions \<open>[0, 1, 0, 0]\<close> is packed to modes 0 and 3,
  \<open>[1, i]\<close>; the ranges \<open>[0, 2)\<close> and \<open>[4, 4)\<close> of the ceiling would give modes 0 and 1.
  And the high end is not always the retained high modes: from four contracted copies
  to five copies the same spectrum is spread to \<open>[1, -i, 0, -1, -1]\<close>, where the low and the
  high modes around one zero are \<open>[1, -i, 0, -1, i]\<close>.
\<close>

theorem contraction_keeps_floor_modes:
  "take 2 (packModes 4 2 (c2c 4 True (map (\<lambda>x. Complex x 0) [0, 1, 0, 0]) 1)) = [1, \<i>] \<and>
   keptModesCeiling 4 2 (c2c 4 True (map (\<lambda>x. Complex x 0) [0, 1, 0, 0]) 1) = [1, - \<i>] \<and>
   spreadModes 5 4 [0, 0, 0, 0, 0] [0, 1, 0, 0] = [1, - \<i>, 0, - 1, - 1] \<and>
   paddedModes 5 4 (c2c 4 True (map (\<lambda>x. Complex x 0) [0, 1, 0, 0]) 1) = [1, - \<i>, 0, - 1, \<i>]"
proof -
  have "(2 + 2) div 2 = (2::nat)" "4 - 2 + 2 = (4::nat)" by simp_all
  then have 1: "take 2 (packModes 4 2 (c2c 4 True (map (\<lambda>x. Complex x 0) [0, 1, 0, 0]) 1)) = [1, \<i>]"
    "keptModesCeiling 4 2 (c2c 4 True (map (\<lambda>x. Complex x 0) [0, 1, 0, 0]) 1) = [1, - \<i>]"
    unfolding spectrum_example packModes_4_2 keptModesCeiling_def by simp_all
  have 2: "spreadModes 5 4 [0, 0, 0, 0, 0] [0, 1, 0, 0] = [1, - \<i>, 0, - 1, - 1]"
    unfolding spreadModes_def spectrum_example
    using unpackModes_overlap_example[of 1 "- \<i>" "- 1" \<i> 0] by simp
  have 3: "paddedModes 5 4 (c2c 4 True (map (\<lambda>x. Complex x 0) [0, 1, 0, 0]) 1)
      = [1, - \<i>, 0, - 1, \<i>]"
    unfolding spectrum_example paddedModes_5_4 ..
  show ?thesis using 1 2 3 by simp
qed

theorem closed_contraction_component_witness:
  "readColumn (fst (contractComponent 4 2
       [[(0, 0, 0)], [(1, 0, 0)], [(0, 0, 0)], [(0, 0, 0)]] 0 0
       ([[zero3], [zero3]], [0, 0, 0, 0]))) 0 0 2 = [1 / 4, 1 / 4] \<and>
   readColumn (fst (extendComponent 4 2 [[(4, 0, 0)], [(2, 0, 0)]] 0 0
       ([[(1, 0, 0)], [(2, 0, 0)], [(3, 0, 0)], [(4, 0, 0)]], [0, 0, 0, 0]))) 0 0 4
     = [5, 5, 5, 7] \<and>
   spreadModes 4 2 [0, 0, 0, 0] [4, 2] = [6, 0, 0, 2] \<and>
   c2c 2 True (map (\<lambda>x. Complex x 0) [4, 2]) 1 = [6, 2]"
proof -
  have h: "(1::nat) \<le> 2" "(2::nat) < 4" "(0::nat) < 1" "(0::nat) < 3" by simp_all
  have s1: "shaped 2 1 [[zero3], [zero3]] \<and> (2::nat) \<le> 2"
    by (simp add: shaped_def less_Suc_eq numeral_2_eq_2)
  have s2: "shaped 4 1 [[(1, 0, 0)], [(2, 0, 0)], [(3, 0, 0)], [(4, 0, 0)]] \<and>
      length [0, 0, 0, 0 :: complex] = 4"
    by (simp add: shaped_def less_Suc_eq numeral_eq_Suc)
  have idx: "[0..<4] = [0, 1, 2, 3]" "[0..<2] = [0, 1::nat]" by (simp_all add: upt_rec)
  have r: "readColumn [[(0, 0, 0)], [(1, 0, 0)], [(0, 0, 0)], [(0, 0, 0)]] 0 0 4 = [0, 1, 0, 0]"
    "readColumn [[(4, 0, 0)], [(2, 0, 0)]] 0 0 2 = [4, 2]"
    "readColumn [[(1, 0, 0)], [(2, 0, 0)], [(3, 0, 0)], [(4, 0, 0)]] 0 0 4 = [1, 2, 3, 4]"
    unfolding readColumn_def idx by simp_all
  have m: "map (\<lambda>x. Complex x 0) [4, 2] = [4, 2]" by (simp add: complex_eq_iff)
  note t = closed_contraction_component[OF h, of 2 "[[zero3], [zero3]]"
      "[[(0, 0, 0)], [(1, 0, 0)], [(0, 0, 0)], [(0, 0, 0)]]" "[0, 0, 0, 0]"
      "[[(1, 0, 0)], [(2, 0, 0)], [(3, 0, 0)], [(4, 0, 0)]]" "[[(4, 0, 0)], [(2, 0, 0)]]"]
  from t s1 have 1: "readColumn (fst (contractComponent 4 2
       [[(0, 0, 0)], [(1, 0, 0)], [(0, 0, 0)], [(0, 0, 0)]] 0 0
       ([[zero3], [zero3]], [0, 0, 0, 0]))) 0 0 2 = [1 / 4, 1 / 4]"
    unfolding r contractedColumn_example by blast
  from t s2 have "readColumn (fst (extendComponent 4 2 [[(4, 0, 0)], [(2, 0, 0)]] 0 0
       ([[(1, 0, 0)], [(2, 0, 0)], [(3, 0, 0)], [(4, 0, 0)]], [0, 0, 0, 0]))) 0 0 4
     = map (\<lambda>k. [1, 2, 3, 4] ! k + 1 / real 2 * Re (c2c 4 False [6, 0, 0, 2] 1 ! k)) [0..<4]"
    unfolding r spreadModes_example by blast
  then have 2: "readColumn (fst (extendComponent 4 2 [[(4, 0, 0)], [(2, 0, 0)]] 0 0
       ([[(1, 0, 0)], [(2, 0, 0)], [(3, 0, 0)], [(4, 0, 0)]], [0, 0, 0, 0]))) 0 0 4
     = [5, 5, 5, 7]"
    unfolding c2c_4_backward idx by simp
  have 3: "c2c 2 True (map (\<lambda>x. Complex x 0) [4, 2]) 1 = [6, 2]"
    unfolding m c2c_2 by simp
  show ?thesis using 1 2 3 spreadModes_example by simp
qed

lemma keptModes_impulse:
  assumes "1 \<le> P'" "P' < P"
  shows "keptModes P P' (y # replicate (P - 1) 0) = y # replicate (P' - 1) 0"
proof -
  define s where "s = (P' + 1) div 2"
  have s: "1 \<le> s" "s \<le> P'" using assms by (auto simp: s_def)
  then obtain s' where s': "s = Suc s'" by (cases s) auto
  have "take s (y # replicate (P - 1) 0) = y # replicate s' 0" using s s' assms by simp
  moreover have "drop (P - P' + s) (y # replicate (P - 1) 0) = replicate (P' - s) 0"
    using s s' assms by simp
  ultimately have "keptModes P P' (y # replicate (P - 1) 0) = y # replicate (s' + (P' - s)) 0"
    unfolding keptModes_def s_def[symmetric] by (simp add: replicate_add)
  moreover have "s' + (P' - s) = P' - 1" using s s' by simp
  ultimately show ?thesis by simp
qed

lemma contractColumn_constant:
  assumes "1 \<le> P'" "P' < P"
  shows "snd (contractColumn P P' (replicate P x)) = replicate P' x"
proof -
  have P: "0 < P" "0 < P'" using assms by simp_all
  have "c2c P True (map (\<lambda>x. Complex x 0) (replicate P x)) 1
      = (of_nat P * Complex x 0) # replicate (P - 1) 0"
    using c2c_constant[OF P(1), of True "Complex x 0"] by simp
  then have "contractedColumn P P' (replicate P x) =
      map (\<lambda>z. 1 / real P * Re z) (replicate P' (of_nat P * Complex x 0))"
    unfolding contractedColumn_def
    by (simp only: keptModes_impulse[OF assms] c2c_impulse[OF P(2)])
  also have "\<dots> = replicate P' x" using P by simp
  finally show ?thesis
    using contractColumn_closed_form[of "replicate P x" P P'] assms by simp
qed

lemma extendColumn_constant:
  assumes "length q = P" "1 \<le> P'" "P' < P"
  shows "snd (extendColumn P P' q (replicate P' f)) = replicate P f"
proof -
  have P: "0 < P" "0 < P'" using assms by simp_all
  let ?y = "of_nat P' * Complex f 0"
  define q2 where "q2 = (?y # replicate (P' - 1) 0) @ drop P' q"
  have sp: "(let q1 = fold (\<lambda>k q. q[k := Complex (replicate P' f ! k) 0]) [0..<P'] q
              in if P' > 1 then c2c P' True q1 1 else q1) = q2"
    using extendColumn_spectrum[of "replicate P' f" P' q P] assms
      c2c_constant[OF P(2), of True "Complex f 0"]
    by (simp add: q2_def)
  have l2: "length q2 = P" using assms by (simp add: q2_def)
  have z: "\<forall>i. 1 \<le> i \<and> i < P' \<longrightarrow> q2 ! i = 0"
    by (auto simp: q2_def nth_append nth_Cons split: nat.split)
  have q20: "q2 ! 0 = ?y" by (simp add: q2_def)
  have up: "unpackModes P P' q2 = ?y # replicate (P - 1) 0"
    using unpackModes_impulse[OF l2 assms(2,3) z] q20 by simp
  have "snd (extendColumn P P' q (replicate P' f)) =
      map (\<lambda>k. 1 / real P' * Re (replicate P ?y ! k)) [0..<P]"
    unfolding extendColumn_unfold sp up c2c_impulse[OF P(1)] ..
  also have "\<dots> = replicate P f"
    using P by (intro nth_equalityI) simp_all
  finally show ?thesis .
qed

text \<open>
  Claim C7, as amended.  For \<open>1 \<le> P' < P\<close>: if all \<open>P\<close> copies hold the same position
  value \<open>x\<close>, the contraction writes \<open>P'\<close> contracted positions all equal to \<open>x\<close>; if
  all \<open>P'\<close> contracted forces equal \<open>f\<close>, the extension adds \<open>f\<close> to the force of every one
  of the \<open>P\<close> copies.
\<close>

theorem constant_contraction:
  assumes "1 \<le> P'" and "P' < P" and "p < N" and "c < 3"
  shows "(shaped M N cpos \<and> P' \<le> M \<and> readColumn pos p c P = replicate P x \<longrightarrow>
            readColumn (fst (contractComponent P P' pos p c (cpos, q))) p c P'
              = replicate P' x) \<and>
         (shaped P N frc \<and> length q = P \<and> readColumn cfrc p c P' = replicate P' f \<longrightarrow>
            readColumn (fst (extendComponent P P' cfrc p c (frc, q))) p c P
              = map (\<lambda>v. v + f) (readColumn frc p c P))"
proof (intro conjI impI)
  assume a: "shaped M N cpos \<and> P' \<le> M \<and> readColumn pos p c P = replicate P x"
  then have "readColumn (fst (contractComponent P P' pos p c (cpos, q))) p c P'
      = snd (contractColumn P P' (readColumn pos p c P))"
    using assms(3,4) contractComponent_reads[of M N cpos P' p c P pos q] by simp
  also have "\<dots> = replicate P' x" using a contractColumn_constant[OF assms(1,2)] by simp
  finally show "readColumn (fst (contractComponent P P' pos p c (cpos, q))) p c P'
      = replicate P' x" .
next
  assume a: "shaped P N frc \<and> length q = P \<and> readColumn cfrc p c P' = replicate P' f"
  have "readColumn (fst (extendComponent P P' cfrc p c (frc, q))) p c P
      = map (\<lambda>k. readColumn frc p c P ! k + replicate P f ! k) [0..<P]"
    using extendComponent_column[of P N frc q p c P' cfrc] a assms
      extendColumn_constant[of q P P' f]
    by simp
  also have "\<dots> = map (\<lambda>v. v + f) (readColumn frc p c P)"
    by (intro nth_equalityI) simp_all
  finally show "readColumn (fst (extendComponent P P' cfrc p c (frc, q))) p c P
      = map (\<lambda>v. v + f) (readColumn frc p c P)" .
qed

theorem constant_contraction_witness:
  "readColumn (fst (contractComponent 4 2
       [[(3, 0, 0)], [(3, 0, 0)], [(3, 0, 0)], [(3, 0, 0)]] 0 0
       ([[zero3], [zero3]], [0, 0, 0, 0]))) 0 0 2 = [3, 3] \<and>
   readColumn (fst (extendComponent 4 2 [[(4, 0, 0)], [(4, 0, 0)]] 0 0
       ([[(1, 0, 0)], [(2, 0, 0)], [(3, 0, 0)], [(5, 0, 0)]], [0, 0, 0, 0]))) 0 0 4
     = [5, 6, 7, 9]"
proof -
  have h: "(1::nat) \<le> 2" "(2::nat) < 4" "(0::nat) < 1" "(0::nat) < 3" by simp_all
  have idx: "[0..<4] = [0, 1, 2, 3]" "[0..<2] = [0, 1::nat]" by (simp_all add: upt_rec)
  have r: "readColumn [[(3, 0, 0)], [(3, 0, 0)], [(3, 0, 0)], [(3, 0, 0)]] 0 0 4 = replicate 4 3"
    "readColumn [[(4, 0, 0)], [(4, 0, 0)]] 0 0 2 = replicate 2 4"
    "readColumn [[(1, 0, 0)], [(2, 0, 0)], [(3, 0, 0)], [(5, 0, 0)]] 0 0 4 = [1, 2, 3, 5]"
    unfolding readColumn_def idx by (simp_all add: numeral_eq_Suc)
  have s1: "shaped 2 1 [[zero3], [zero3]] \<and> (2::nat) \<le> 2 \<and>
      readColumn [[(3, 0, 0)], [(3, 0, 0)], [(3, 0, 0)], [(3, 0, 0)]] 0 0 4 = replicate 4 3"
    using r(1) by (simp add: shaped_def less_Suc_eq numeral_2_eq_2)
  have s2: "shaped 4 1 [[(1, 0, 0)], [(2, 0, 0)], [(3, 0, 0)], [(5, 0, 0)]] \<and>
      length [0, 0, 0, 0 :: complex] = 4 \<and>
      readColumn [[(4, 0, 0)], [(4, 0, 0)]] 0 0 2 = replicate 2 4"
    using r(2) by (simp add: shaped_def less_Suc_eq numeral_eq_Suc)
  note t = constant_contraction[OF h, of 2 "[[zero3], [zero3]]"
      "[[(3, 0, 0)], [(3, 0, 0)], [(3, 0, 0)], [(3, 0, 0)]]" 3
      "[0, 0, 0, 0]" "[[(1, 0, 0)], [(2, 0, 0)], [(3, 0, 0)], [(5, 0, 0)]]"
      "[[(4, 0, 0)], [(4, 0, 0)]]" 4]
  from t s1 have 1: "readColumn (fst (contractComponent 4 2
       [[(3, 0, 0)], [(3, 0, 0)], [(3, 0, 0)], [(3, 0, 0)]] 0 0
       ([[zero3], [zero3]], [0, 0, 0, 0]))) 0 0 2 = replicate 2 3" by blast
  from t s2 have 2: "readColumn (fst (extendComponent 4 2 [[(4, 0, 0)], [(4, 0, 0)]] 0 0
       ([[(1, 0, 0)], [(2, 0, 0)], [(3, 0, 0)], [(5, 0, 0)]], [0, 0, 0, 0]))) 0 0 4
     = map (\<lambda>v. v + 4) (readColumn [[(1, 0, 0)], [(2, 0, 0)], [(3, 0, 0)], [(5, 0, 0)]] 0 0 4)"
    by blast
  show ?thesis using 1 2 unfolding r(3) by (simp add: numeral_2_eq_2)
qed

text \<open>
  The contributions do not add up to the constant: from one contracted copy with
  force 1, each of two copies receives 1, in total 2.
\<close>

theorem extended_forces_sum:
  "snd (extendColumn 2 1 [0, 0] [1]) = [1, 1] \<and> sum_list (snd (extendColumn 2 1 [0, 0] [1])) = 2"
  using extendColumn_constant[of "[0, 0]" 2 1 1] by (simp add: numeral_2_eq_2)

end
